theory Spec2Isabelle
  imports Main "HOL-Library.Word"
begin

section \<open>Errors and outcomes\<close>

text \<open>
  The exceptions the sources raise. \<open>UnrecognizedComponentType\<close> is the class of that name
  (it derives from \<open>std::invalid_argument\<close>), \<open>InvalidArgument\<close> is a plain
  \<open>std::invalid_argument\<close>, \<open>RuntimeError\<close> is \<open>std::runtime_error\<close>, \<open>OutOfRange\<close> is the
  \<open>std::out_of_range\<close> of \<open>vector::at\<close>, \<open>map::at\<close> and \<open>bitset::set\<close>, \<open>AssertionFailed\<close> is a
  failed \<open>Assert\<close>, and \<open>UndefinedBehaviour\<close> marks the places where C++ gives no meaning at all
  (\<open>pop_back\<close> on an empty vector, a null pointer dereferenced).
\<close>

datatype error =
    InvalidArgument
  | UnrecognizedComponentType
  | RuntimeError
  | OutOfRange
  | AssertionFailed
  | UndefinedBehaviour

text \<open>
  A member function that mutates its object either returns (\<open>Done\<close>) or throws (\<open>Threw\<close>);
  both carry the state the object is left in, since whatever was written before a
  \<open>throw\<close> stays written.
\<close>

datatype 's outcome = Done 's | Threw error 's

fun and_then :: "'s outcome \<Rightarrow> ('s \<Rightarrow> 's outcome) \<Rightarrow> 's outcome" where
  "and_then (Done s) f = f s"
| "and_then (Threw e s) f = Threw e s"

fun is_Done :: "'s outcome \<Rightarrow> bool" where
  "is_Done (Done s) = True"
| "is_Done (Threw e s) = False"

fun state_of :: "'s outcome \<Rightarrow> 's" where
  "state_of (Done s) = s"
| "state_of (Threw e s) = s"

section \<open>Entity identities\<close>

text \<open>
  Modelled from the spec: \<open>Entity::Id\<close> (Entity.hh is not among the sources). An identity is
  the pair of an index and a generation, compared structurally; the default-constructed
  \<open>Entity::Id()\<close> is the null identity, index \<open>0\<close>, and an identity converts to \<open>true\<close> exactly
  when it is not the null identity. The generation is a machine integer of some width
  \<open>'g\<close>, which the sources at hand do not fix.
\<close>

record 'gen Id =
  Index :: nat
  Generation :: 'gen

definition Id_null :: "'g::len word Id" where
  "Id_null = \<lparr>Index = 0, Generation = 0\<rparr>"


section \<open>Component pools\<close>

text \<open>
  \<open>ComponentPool<CompType>::Storage\<close>: the owning entity, the value, and the link into a keyed
  bucket: \<open>keyedList\<close> is the address of a \<open>std::list<size_t>\<close> (\<open>None\<close> is \<open>nullptr\<close>) and
  \<open>keyedIterator\<close> names one node of that list.
\<close>

record ('gen, 'v) Storage =
  eid :: "'gen Id"
  cvalue :: 'v
  keyedList :: "nat option"
  keyedIterator :: nat

text \<open>
  A pool. \<open>isKeyed\<close> is the dynamic type (\<open>KeyedComponentPool\<close> or plain \<open>ComponentPool\<close>),
  which the virtual \<open>remove\<close> and the \<open>dynamic_cast\<close>s of the entity manager dispatch on.
  The bucket lists live in \<open>lists\<close>, a store from addresses to lists of nodes
  \<open>(node, value)\<close>; an iterator into a \<open>std::list\<close> is the name of a node, and it stays valid
  while other nodes come and go. \<open>fresh\<close> numbers the next list or node allocated.
\<close>

record ('gen, 'v) ComponentPool =
  components :: "('gen, 'v) Storage list"
  entIndexToCompIndex :: "nat \<rightharpoonup> nat"
  softRemoveMode :: bool
  softRemoveCompIndexes :: "nat list"
  isKeyed :: bool
  compKeyToCompIndex :: "'v \<rightharpoonup> nat"
  lists :: "nat \<rightharpoonup> (nat \<times> nat) list"
  fresh :: nat

text \<open>\<open>static_cast<size_t>(-1)\<close>, with \<open>size_t\<close> of 64 bits.\<close>

definition INVALID_COMP_INDEX :: nat where
  "INVALID_COMP_INDEX = 2 ^ 64 - 1"

text \<open>
  \<open>n - 1\<close> in \<open>size_t\<close>, for the \<open>n\<close> a vector's \<open>size()\<close> can be (below \<open>2 ^ 64\<close>): zero
  wraps around to the largest value.
\<close>

definition size_minus_one :: "nat \<Rightarrow> nat" where
  "size_minus_one n = (if n = 0 then 2 ^ 64 - 1 else n - 1)"

text \<open>\<open>x + 1\<close> in \<open>size_t\<close>.\<close>

definition size_plus_one :: "nat \<Rightarrow> nat" where
  "size_plus_one x = (x + 1) mod 2 ^ 64"

definition ComponentPool_new :: "bool \<Rightarrow> ('g::len word, 'v) ComponentPool" where
  "ComponentPool_new keyed =
     \<lparr>components = [], entIndexToCompIndex = Map.empty, softRemoveMode = False,
      softRemoveCompIndexes = [], isKeyed = keyed, compKeyToCompIndex = Map.empty,
      lists = Map.empty, fresh = 0\<rparr>"

definition HasComponent :: "('g::len word, 'v) ComponentPool \<Rightarrow> 'g word Id \<Rightarrow> bool" where
  "HasComponent p e =
     (case entIndexToCompIndex p (Index e) of
        None \<Rightarrow> False
      | Some compIndex \<Rightarrow> compIndex \<noteq> INVALID_COMP_INDEX)"

definition Size :: "('g::len word, 'v) ComponentPool \<Rightarrow> nat" where
  "Size p = length (components p)"

text \<open>
  \<open>ComponentPool::Set\<close>: the record is placed behind the last one and the entity's entry of
  the reverse map points to it, whether or not the entity had a record before.
\<close>

definition ComponentPool_Set ::
  "'g::len word Id \<Rightarrow> 'v \<Rightarrow> ('g word, 'v) ComponentPool \<Rightarrow> ('g word, 'v) ComponentPool" where
  "ComponentPool_Set e v p =
     (let newCompIndex = length (components p)
      in p\<lparr>components :=
              components p @ [\<lparr>eid = e, cvalue = v, keyedList = None, keyedIterator = 0\<rparr>],
            entIndexToCompIndex := (entIndexToCompIndex p)(Index e \<mapsto> newCompIndex)\<rparr>)"

definition ComponentPool_Get :: "('g::len word, 'v) ComponentPool \<Rightarrow> 'g word Id \<Rightarrow> error + 'v" where
  "ComponentPool_Get p e =
     (if \<not> HasComponent p e then Inl RuntimeError
      else case entIndexToCompIndex p (Index e) of
             None \<Rightarrow> Inl OutOfRange
           | Some compIndex \<Rightarrow>
               if compIndex < length (components p)
               then Inr (cvalue (components p ! compIndex))
               else Inl OutOfRange)"

text \<open>
  \<open>ComponentPool::remove\<close>, the real removal: unless the slot is the last one, the last record
  is moved into it and the reverse map of the moved record's owner follows; then the last
  slot is dropped.
\<close>

definition ComponentPool_remove ::
  "nat \<Rightarrow> ('g::len word, 'v) ComponentPool \<Rightarrow> ('g word, 'v) ComponentPool outcome" where
  "ComponentPool_remove compIndex p =
     (if compIndex < size_minus_one (length (components p)) then
        (if compIndex < length (components p) then
           (let validComponent = last (components p);
                owner = Index (eid validComponent);
                m = (case entIndexToCompIndex p owner of
                       None \<Rightarrow> entIndexToCompIndex p
                     | Some old \<Rightarrow> (entIndexToCompIndex p)(owner \<mapsto> compIndex))
            in Done (p\<lparr>components := butlast ((components p)[compIndex := validComponent]),
                       entIndexToCompIndex := m\<rparr>))
         else Threw OutOfRange p)
      else if components p = [] then Threw UndefinedBehaviour p
      else Done (p\<lparr>components := butlast (components p)\<rparr>))"

text \<open>
  \<open>ComponentPool::softRemove\<close>: the slot stays where it is, its owner becomes the null
  identity and its index is queued for the real removal.
\<close>

definition softRemove ::
  "nat \<Rightarrow> ('g::len word, 'v) ComponentPool \<Rightarrow> ('g word, 'v) ComponentPool outcome" where
  "softRemove compIndex p =
     (if compIndex < length (components p) then
        Done (p\<lparr>components :=
                   (components p)[compIndex := (components p ! compIndex)\<lparr>eid := Id_null\<rparr>],
                 softRemoveCompIndexes := softRemoveCompIndexes p @ [compIndex]\<rparr>)
      else Threw AssertionFailed p)"

subsection \<open>Bucket lists of a keyed pool\<close>

text \<open>
  A \<open>std::list<size_t>\<close> is the list of its nodes, each a pair of the node's name and the
  value it holds. \<open>erase\<close> removes the node an iterator names, assignment through an
  iterator changes the value of its node, \<open>emplace\<close> at the end appends a new node.
\<close>

definition node_ids :: "(nat \<times> nat) list \<Rightarrow> nat list" where
  "node_ids ns = map fst ns"

definition node_erase :: "nat \<Rightarrow> (nat \<times> nat) list \<Rightarrow> (nat \<times> nat) list" where
  "node_erase n ns = filter (\<lambda>nd. fst nd \<noteq> n) ns"

definition node_assign :: "nat \<Rightarrow> nat \<Rightarrow> (nat \<times> nat) list \<Rightarrow> (nat \<times> nat) list" where
  "node_assign n v ns = map (\<lambda>nd. if fst nd = n then (n, v) else nd) ns"

text \<open>The iterator behind the one naming node \<open>n\<close>; \<open>None\<close> is the list's \<open>end()\<close>.\<close>

fun node_next :: "nat \<Rightarrow> (nat \<times> nat) list \<Rightarrow> nat option" where
  "node_next n [] = None"
| "node_next n (nd # ns) =
     (if fst nd = n then (case ns of [] \<Rightarrow> None | nd' # ns' \<Rightarrow> Some (fst nd'))
      else node_next n ns)"

definition node_begin :: "(nat \<times> nat) list \<Rightarrow> nat option" where
  "node_begin ns = (case ns of [] \<Rightarrow> None | nd # ns' \<Rightarrow> Some (fst nd))"

text \<open>The value of the node an iterator names.\<close>

definition node_value :: "nat \<Rightarrow> (nat \<times> nat) list \<Rightarrow> nat option" where
  "node_value n ns = map_of ns n"

text \<open>
  \<open>KeyedComponentPool::Set\<close>: the record is appended as in the plain pool, then linked into
  the bucket of its value: appended to the bucket's list when the value has one, or in a
  new list of its own, entered in the index.
\<close>

definition KeyedComponentPool_Set ::
  "'g::len word Id \<Rightarrow> 'v \<Rightarrow> ('g word, 'v) ComponentPool \<Rightarrow> ('g word, 'v) ComponentPool outcome" where
  "KeyedComponentPool_Set e v p =
     (let newCompIndex = length (components p);
          m = (entIndexToCompIndex p)(Index e \<mapsto> newCompIndex)
      in case compKeyToCompIndex p v of
           Some l \<Rightarrow>
             (case lists p l of
                None \<Rightarrow> Threw UndefinedBehaviour p
              | Some ns \<Rightarrow>
                  Done (p\<lparr>components := components p @
                              [\<lparr>eid = e, cvalue = v, keyedList = Some l, keyedIterator = fresh p\<rparr>],
                          entIndexToCompIndex := m,
                          lists := (lists p)(l \<mapsto> ns @ [(fresh p, newCompIndex)]),
                          fresh := fresh p + 1\<rparr>))
         | None \<Rightarrow>
             Done (p\<lparr>components := components p @
                         [\<lparr>eid = e, cvalue = v, keyedList = Some (fresh p),
                           keyedIterator = fresh p + 1\<rparr>],
                     entIndexToCompIndex := m,
                     compKeyToCompIndex := (compKeyToCompIndex p)(v \<mapsto> fresh p),
                     lists := (lists p)(fresh p \<mapsto> [(fresh p + 1, newCompIndex)]),
                     fresh := fresh p + 2\<rparr>))"

text \<open>
  The first half of \<open>KeyedComponentPool::remove\<close>: the record is unlinked from its bucket,
  and the bucket leaves the index when its list is empty after that.
\<close>

definition unlink ::
  "nat \<Rightarrow> ('g::len word, 'v) ComponentPool \<Rightarrow> ('g word, 'v) ComponentPool outcome" where
  "unlink compIndex p =
     (let componentToRemove = components p ! compIndex
      in case keyedList componentToRemove of
           None \<Rightarrow> Done p
         | Some l \<Rightarrow>
             (case lists p l of
                None \<Rightarrow> Threw UndefinedBehaviour p
              | Some ns \<Rightarrow>
                  if keyedIterator componentToRemove \<notin> set (node_ids ns)
                  then Threw UndefinedBehaviour p
                  else
                    (let ns' = node_erase (keyedIterator componentToRemove) ns
                     in Done (p\<lparr>components :=
                                  (components p)[compIndex := componentToRemove\<lparr>keyedList := None\<rparr>],
                                compKeyToCompIndex :=
                                  (if ns' = []
                                   then (compKeyToCompIndex p)(cvalue componentToRemove := None)
                                   else compKeyToCompIndex p),
                                lists := (lists p)(l \<mapsto> ns')\<rparr>))))"

text \<open>
  The second half: the swap with the last record as in the plain pool, and the node of the
  moved record is told its new position.
\<close>

definition relocate_last ::
  "nat \<Rightarrow> ('g::len word, 'v) ComponentPool \<Rightarrow> ('g word, 'v) ComponentPool outcome" where
  "relocate_last compIndex p =
     (if compIndex < size_minus_one (length (components p)) then
        (if compIndex < length (components p) then
           (let validComponent = last (components p);
                ls = (case keyedList validComponent of
                        None \<Rightarrow> lists p
                      | Some l \<Rightarrow>
                          (case lists p l of
                             None \<Rightarrow> lists p
                           | Some ns \<Rightarrow>
                               (lists p)(l \<mapsto> node_assign (keyedIterator validComponent) compIndex ns)));
                owner = Index (eid validComponent);
                m = (case entIndexToCompIndex p owner of
                       None \<Rightarrow> entIndexToCompIndex p
                     | Some old \<Rightarrow> (entIndexToCompIndex p)(owner \<mapsto> compIndex))
            in Done (p\<lparr>components := butlast ((components p)[compIndex := validComponent]),
                       entIndexToCompIndex := m,
                       lists := ls\<rparr>))
         else Threw OutOfRange p)
      else if components p = [] then Threw UndefinedBehaviour p
      else Done (p\<lparr>components := butlast (components p)\<rparr>))"

definition KeyedComponentPool_remove ::
  "nat \<Rightarrow> ('g::len word, 'v) ComponentPool \<Rightarrow> ('g word, 'v) ComponentPool outcome" where
  "KeyedComponentPool_remove compIndex p =
     (if compIndex < length (components p)
      then and_then (unlink compIndex p) (relocate_last compIndex)
      else Threw OutOfRange p)"

text \<open>The virtual call \<open>remove(compIndex)\<close>.\<close>

definition remove_virtual ::
  "nat \<Rightarrow> ('g::len word, 'v) ComponentPool \<Rightarrow> ('g word, 'v) ComponentPool outcome" where
  "remove_virtual compIndex p =
     (if isKeyed p then KeyedComponentPool_remove compIndex p
      else ComponentPool_remove compIndex p)"

text \<open>\<open>ComponentPool::Remove\<close>, the public removal of an entity's record.\<close>

definition ComponentPool_Remove ::
  "'g::len word Id \<Rightarrow> ('g word, 'v) ComponentPool \<Rightarrow> ('g word, 'v) ComponentPool outcome" where
  "ComponentPool_Remove e p =
     (case entIndexToCompIndex p (Index e) of
        None \<Rightarrow> Threw RuntimeError p
      | Some removeIndex \<Rightarrow>
          if removeIndex = INVALID_COMP_INDEX then Threw RuntimeError p
          else
            (let p1 = p\<lparr>entIndexToCompIndex :=
                          (entIndexToCompIndex p)(Index e \<mapsto> INVALID_COMP_INDEX)\<rparr>
             in if softRemoveMode p1 then softRemove removeIndex p1
                else remove_virtual removeIndex p1))"

text \<open>
  The loop of \<open>toggleSoftRemove(false)\<close>: while the queue is not empty, its front is popped
  and really removed. The queue is the first argument; \<open>remove\<close> never touches it.
\<close>

fun drain ::
  "nat list \<Rightarrow> ('g::len word, 'v) ComponentPool \<Rightarrow> ('g word, 'v) ComponentPool outcome" where
  "drain [] p = Done p"
| "drain (compIndex # queue) p =
     and_then (remove_virtual compIndex (p\<lparr>softRemoveCompIndexes := queue\<rparr>)) (drain queue)"

definition toggleSoftRemove ::
  "bool \<Rightarrow> ('g::len word, 'v) ComponentPool \<Rightarrow> ('g word, 'v) ComponentPool outcome" where
  "toggleSoftRemove enabled p =
     (if enabled then
        (if softRemoveMode p then Threw RuntimeError p
         else Done (p\<lparr>softRemoveMode := True\<rparr>))
      else
        (if \<not> softRemoveMode p then Threw RuntimeError p
         else and_then (drain (softRemoveCompIndexes p) p)
                (\<lambda>p'. Done (p'\<lparr>softRemoveMode := False\<rparr>))))"

definition entityAt :: "('g::len word, 'v) ComponentPool \<Rightarrow> nat \<Rightarrow> error + 'g word Id" where
  "entityAt p compIndex =
     (if compIndex < length (components p) then Inr (eid (components p ! compIndex))
      else Inl AssertionFailed)"

section \<open>The component manager\<close>

text \<open>
  A component type is known by its \<open>std::type_index\<close>, here a name. A component mask is a
  \<open>std::bitset<MAX_COMPONENTS>\<close> with \<open>MAX_COMPONENTS = 64\<close>. All pools of one manager hold
  values of the one type \<open>'v\<close>, which stands for the union of the component types.
\<close>

type_synonym type_index = string

type_synonym ComponentMask = "64 word"

definition MAX_COMPONENTS :: nat where
  "MAX_COMPONENTS = 64"

record ('gen, 'v) ComponentManager =
  compTypeToCompIndex :: "type_index \<rightharpoonup> nat"
  componentPools :: "('gen, 'v) ComponentPool list"
  entCompMasks :: "ComponentMask list"

text \<open>
  \<open>bitset::set\<close>, \<open>bitset::reset\<close> and \<open>bitset::test\<close> check the position and throw
  \<open>std::out_of_range\<close>; \<open>bitset::operator[]\<close> does not check, and is used below only as
  \<open>bit\<close>, which reads a position past the end as unset.
\<close>

definition mask_set :: "nat \<Rightarrow> ComponentMask \<Rightarrow> error + ComponentMask" where
  "mask_set i m = (if i < MAX_COMPONENTS then Inr (set_bit i m) else Inl OutOfRange)"

definition mask_reset :: "nat \<Rightarrow> ComponentMask \<Rightarrow> error + ComponentMask" where
  "mask_reset i m = (if i < MAX_COMPONENTS then Inr (unset_bit i m) else Inl OutOfRange)"

definition mask_test :: "ComponentMask \<Rightarrow> nat \<Rightarrow> error + bool" where
  "mask_test m i = (if i < MAX_COMPONENTS then Inr (bit m i) else Inl OutOfRange)"

definition ComponentTypeCount :: "('g::len word, 'v) ComponentManager \<Rightarrow> nat" where
  "ComponentTypeCount cm = length (componentPools cm)"

text \<open>
  \<open>RegisterComponentType\<close> and \<open>RegisterKeyedComponentType\<close> differ in the pool they
  create only; \<open>keyed\<close> tells them apart.
\<close>

definition RegisterComponentType ::
  "bool \<Rightarrow> type_index \<Rightarrow> ('g::len word, 'v) ComponentManager \<Rightarrow> ('g word, 'v) ComponentManager outcome" where
  "RegisterComponentType keyed compType cm =
     (case compTypeToCompIndex cm compType of
        Some i \<Rightarrow> Threw RuntimeError cm
      | None \<Rightarrow>
          (let compIndex = length (componentPools cm)
           in Done (cm\<lparr>compTypeToCompIndex := (compTypeToCompIndex cm)(compType \<mapsto> compIndex),
                      componentPools := componentPools cm @ [ComponentPool_new keyed]\<rparr>)))"

text \<open>
  The tail that \<open>ComponentManager::Set\<close> and \<open>ComponentManager::SetKey\<close> share once the
  type's index is known: the assertion on the mask table, the mask bit, and the pool's
  own \<open>Set\<close>. \<open>Set\<close> reaches the pool through a \<open>static_cast\<close> to \<open>ComponentPool\<close> and so
  runs \<open>ComponentPool::Set\<close> whatever the pool is; \<open>SetKey\<close> goes through a
  \<open>dynamic_cast\<close> to \<open>KeyedComponentPool\<close>, which is null for a plain pool.
\<close>

definition set_at ::
  "bool \<Rightarrow> nat \<Rightarrow> 'g::len word Id \<Rightarrow> 'v \<Rightarrow> ('g word, 'v) ComponentManager \<Rightarrow>
   ('g word, 'v) ComponentManager outcome" where
  "set_at asKey compIndex e v cm =
     (if \<not> Index e < length (entCompMasks cm) then Threw AssertionFailed cm
      else case mask_set compIndex (entCompMasks cm ! Index e) of
             Inl err \<Rightarrow> Threw err cm
           | Inr compMask \<Rightarrow>
               (let cm1 = cm\<lparr>entCompMasks := (entCompMasks cm)[Index e := compMask]\<rparr>
                in if \<not> compIndex < length (componentPools cm1) then Threw OutOfRange cm1
                   else
                     (let pool = componentPools cm1 ! compIndex
                      in if asKey then
                           (if \<not> isKeyed pool then Threw UndefinedBehaviour cm1
                            else case KeyedComponentPool_Set e v pool of
                                   Done pool' \<Rightarrow>
                                     Done (cm1\<lparr>componentPools :=
                                                 (componentPools cm1)[compIndex := pool']\<rparr>)
                                 | Threw err pool' \<Rightarrow>
                                     Threw err (cm1\<lparr>componentPools :=
                                                     (componentPools cm1)[compIndex := pool']\<rparr>))
                         else Done (cm1\<lparr>componentPools :=
                                          (componentPools cm1)
                                            [compIndex := ComponentPool_Set e v pool]\<rparr>))))"

text \<open>
  \<open>ComponentManager::Set\<close> (\<open>asKey = False\<close>) and \<open>ComponentManager::SetKey\<close>
  (\<open>asKey = True\<close>): a type never seen before is registered first.
\<close>

definition ComponentManager_Set ::
  "bool \<Rightarrow> type_index \<Rightarrow> 'g::len word Id \<Rightarrow> 'v \<Rightarrow> ('g word, 'v) ComponentManager \<Rightarrow>
   ('g word, 'v) ComponentManager outcome" where
  "ComponentManager_Set asKey compType e v cm =
     (case compTypeToCompIndex cm compType of
        Some compIndex \<Rightarrow> set_at asKey compIndex e v cm
      | None \<Rightarrow>
          and_then (RegisterComponentType asKey compType cm)
            (\<lambda>cm1. case compTypeToCompIndex cm1 compType of
                     None \<Rightarrow> Threw OutOfRange cm1
                   | Some compIndex \<Rightarrow> set_at asKey compIndex e v cm1))"

definition ComponentManager_Has ::
  "type_index \<Rightarrow> ('g::len word, 'v) ComponentManager \<Rightarrow> 'g word Id \<Rightarrow> error + bool" where
  "ComponentManager_Has compType cm e =
     (case compTypeToCompIndex cm compType of
        None \<Rightarrow> Inl UnrecognizedComponentType
      | Some compIndex \<Rightarrow>
          if Index e < length (entCompMasks cm)
          then Inr (bit (entCompMasks cm ! Index e) compIndex)
          else Inl OutOfRange)"

definition ComponentManager_Get ::
  "type_index \<Rightarrow> ('g::len word, 'v) ComponentManager \<Rightarrow> 'g word Id \<Rightarrow> error + 'v" where
  "ComponentManager_Get compType cm e =
     (case ComponentManager_Has compType cm e of
        Inl err \<Rightarrow> Inl err
      | Inr False \<Rightarrow> Inl RuntimeError
      | Inr True \<Rightarrow>
          (case compTypeToCompIndex cm compType of
             None \<Rightarrow> Inl OutOfRange
           | Some compIndex \<Rightarrow>
               if compIndex < length (componentPools cm)
               then ComponentPool_Get (componentPools cm ! compIndex) e
               else Inl OutOfRange))"

text \<open>A call into the pool at \<open>compIndex\<close>, with the pool written back.\<close>

definition in_pool ::
  "nat \<Rightarrow> (('g::len word, 'v) ComponentPool \<Rightarrow> ('g word, 'v) ComponentPool outcome) \<Rightarrow>
   ('g word, 'v) ComponentManager \<Rightarrow> ('g word, 'v) ComponentManager outcome" where
  "in_pool compIndex f cm =
     (if \<not> compIndex < length (componentPools cm) then Threw OutOfRange cm
      else case f (componentPools cm ! compIndex) of
             Done pool' \<Rightarrow> Done (cm\<lparr>componentPools := (componentPools cm)[compIndex := pool']\<rparr>)
           | Threw err pool' \<Rightarrow>
               Threw err (cm\<lparr>componentPools := (componentPools cm)[compIndex := pool']\<rparr>))"

text \<open>The mask bit of \<open>e\<close> is cleared, through \<open>bitset::reset\<close>.\<close>

definition reset_bit ::
  "nat \<Rightarrow> 'g::len word Id \<Rightarrow> ('g word, 'v) ComponentManager \<Rightarrow> ('g word, 'v) ComponentManager outcome" where
  "reset_bit compIndex e cm =
     (case mask_reset compIndex (entCompMasks cm ! Index e) of
        Inl err \<Rightarrow> Threw err cm
      | Inr compMask \<Rightarrow> Done (cm\<lparr>entCompMasks := (entCompMasks cm)[Index e := compMask]\<rparr>))"

definition ComponentManager_Remove ::
  "type_index \<Rightarrow> 'g::len word Id \<Rightarrow> ('g word, 'v) ComponentManager \<Rightarrow>
   ('g word, 'v) ComponentManager outcome" where
  "ComponentManager_Remove compType e cm =
     (case compTypeToCompIndex cm compType of
        None \<Rightarrow> Threw UnrecognizedComponentType cm
      | Some compIndex \<Rightarrow>
          if \<not> Index e < length (entCompMasks cm) then Threw OutOfRange cm
          else if \<not> bit (entCompMasks cm ! Index e) compIndex then Threw RuntimeError cm
          else and_then (in_pool compIndex (ComponentPool_Remove e) cm) (reset_bit compIndex e))"



text \<open>
  \<open>CreateMask<CompTypes...>\<close> and \<open>SetMask\<close>: the bits of the named types are set one after
  the other, and a type that is not registered is an \<open>std::invalid_argument\<close>.
\<close>

fun setMask ::
  "('g::len word, 'v) ComponentManager \<Rightarrow> ComponentMask \<Rightarrow> type_index list \<Rightarrow> error + ComponentMask" where
  "setMask cm compMask [] = Inr compMask"
| "setMask cm compMask (stdTypeId # stdTypeIds) =
     (case compTypeToCompIndex cm stdTypeId of
        None \<Rightarrow> Inl InvalidArgument
      | Some compIndex \<Rightarrow>
          (case mask_set compIndex compMask of
             Inl err \<Rightarrow> Inl err
           | Inr compMask' \<Rightarrow> setMask cm compMask' stdTypeIds))"

definition CreateMask ::
  "('g::len word, 'v) ComponentManager \<Rightarrow> type_index list \<Rightarrow> error + ComponentMask" where
  "CreateMask cm compTypes = setMask cm 0 compTypes"

section \<open>The entity manager\<close>

text \<open>
  The identity table (\<open>entIndexToGen\<close>, \<open>indexIsAlive\<close>), the queue of free indexes and the
  component manager. The subscriber registries are not part of this state: the callbacks
  an \<open>Emit\<close> reaches are an argument of the operations that emit.
\<close>

record ('gen, 'v) EntityManager =
  entIndexToGen :: "'gen list"
  indexIsAlive :: "bool list"
  freeEntityIndexes :: "nat list"
  compMgr :: "('gen, 'v) ComponentManager"

text \<open>The constructor enters the null entity, which is not alive.\<close>

definition EntityManager_new :: "('g::len word, 'v) EntityManager" where
  "EntityManager_new =
     \<lparr>entIndexToGen = [0], indexIsAlive = [False], freeEntityIndexes = [],
      compMgr = \<lparr>compTypeToCompIndex = Map.empty, componentPools = [], entCompMasks = [0]\<rparr>\<rparr>"

text \<open>A call into the component manager, with the manager written back.\<close>

definition in_compMgr ::
  "(('g::len word, 'v) ComponentManager \<Rightarrow> ('g word, 'v) ComponentManager outcome) \<Rightarrow>
   ('g word, 'v) EntityManager \<Rightarrow> ('g word, 'v) EntityManager outcome" where
  "in_compMgr f em =
     (case f (compMgr em) of
        Done cm \<Rightarrow> Done (em\<lparr>compMgr := cm\<rparr>)
      | Threw err cm \<Rightarrow> Threw err (em\<lparr>compMgr := cm\<rparr>))"

text \<open>
  \<open>EntityManager::NewEntity\<close>; \<open>recycleCount\<close> is \<open>ECS_ENTITY_RECYCLE_COUNT\<close>, a constant of
  Common.hh, which is not among the sources. The result is the new identity and the
  manager, or the exception and the manager.
\<close>

definition NewEntity ::
  "nat \<Rightarrow> ('g::len word, 'v) EntityManager \<Rightarrow>
   error \<times> ('g word, 'v) EntityManager + 'g word Id \<times> ('g word, 'v) EntityManager" where
  "NewEntity recycleCount em =
     (if length (freeEntityIndexes em) \<ge> recycleCount then
        (case freeEntityIndexes em of
           [] \<Rightarrow> Inl (UndefinedBehaviour, em)
         | i # rest \<Rightarrow>
             (let em1 = em\<lparr>freeEntityIndexes := rest\<rparr>
              in if \<not> i < length (entIndexToGen em1) then Inl (OutOfRange, em1)
                 else if \<not> (i < length (entCompMasks (compMgr em1)) \<and>
                             entCompMasks (compMgr em1) ! i = 0)
                 then Inl (AssertionFailed, em1)
                 else
                   (let em2 = em1\<lparr>indexIsAlive := (indexIsAlive em1)[i := True]\<rparr>
                    in if length (entIndexToGen em2) = length (indexIsAlive em2) \<and>
                          length (entIndexToGen em2) = length (entCompMasks (compMgr em2))
                       then Inr (\<lparr>Index = i, Generation = entIndexToGen em2 ! i\<rparr>, em2)
                       else Inl (AssertionFailed, em2))))
      else
        (let i = length (entIndexToGen em);
             em2 = em\<lparr>entIndexToGen := entIndexToGen em @ [0],
                      indexIsAlive := indexIsAlive em @ [True],
                      compMgr := (compMgr em)\<lparr>entCompMasks := entCompMasks (compMgr em) @ [0]\<rparr>\<rparr>
         in if length (entIndexToGen em2) = length (indexIsAlive em2) \<and>
               length (entIndexToGen em2) = length (entCompMasks (compMgr em2))
            then Inr (\<lparr>Index = i, Generation = 0\<rparr>, em2)
            else Inl (AssertionFailed, em2)))"





section \<open>Collections and iterators over a pool\<close>

text \<open>
  \<open>ComponentPoolEntityCollection\<close>. Its \<open>pool\<close> pointer is the position of the pool among
  the component manager's pools (\<open>None\<close> is \<open>nullptr\<close>), \<open>indexes\<close> the address of a bucket
  list in that pool's store, \<open>endIter\<close> the node the keyed constructor appends.
\<close>

record ComponentPoolEntityCollection =
  coll_pool :: "nat option"
  coll_indexes :: "nat option"
  coll_endIter :: "nat option"
  coll_lastCompIndex :: nat

text \<open>
  \<open>ComponentPoolEntityCollection::Iterator\<close>; \<open>it_iter\<close> is an iterator into the bucket
  list, the name of a node or \<open>None\<close> for the list's \<open>end()\<close>.
\<close>

record Iterator =
  it_pool :: "nat option"
  it_indexes :: "nat option"
  it_iter :: "nat option"
  it_compIndex :: nat

definition the_list :: "('g::len word, 'v) ComponentPool \<Rightarrow> nat \<Rightarrow> (nat \<times> nat) list" where
  "the_list p l = (case lists p l of None \<Rightarrow> [] | Some ns \<Rightarrow> ns)"

text \<open>The three constructors: the empty collection, the one over a pool, the keyed one.\<close>

definition Collection_empty :: ComponentPoolEntityCollection where
  "Collection_empty =
     \<lparr>coll_pool = None, coll_indexes = None, coll_endIter = None, coll_lastCompIndex = 0\<rparr>"

text \<open>
  \<open>ComponentPool::Entities\<close>: the collection remembers the position of the last record
  there is at this moment.
\<close>

definition Entities :: "nat \<Rightarrow> ('g::len word, 'v) ComponentPool \<Rightarrow> ComponentPoolEntityCollection" where
  "Entities this p =
     \<lparr>coll_pool = Some this, coll_indexes = None, coll_endIter = None,
      coll_lastCompIndex = size_minus_one (Size p)\<rparr>"

text \<open>
  The keyed constructor appends a node holding \<open>INVALID_COMP_INDEX\<close> to the bucket list and
  keeps it as the end of the traversal; the destructor erases that node.
\<close>

definition Collection_keyed ::
  "nat \<Rightarrow> nat \<Rightarrow> ('g::len word, 'v) ComponentPool \<Rightarrow>
   ComponentPoolEntityCollection \<times> ('g word, 'v) ComponentPool" where
  "Collection_keyed this l p =
     (\<lparr>coll_pool = Some this, coll_indexes = Some l, coll_endIter = Some (fresh p),
       coll_lastCompIndex = 0\<rparr>,
      p\<lparr>lists := (lists p)(l \<mapsto> the_list p l @ [(fresh p, INVALID_COMP_INDEX)]),
        fresh := fresh p + 1\<rparr>)"

definition Collection_destroy ::
  "ComponentPoolEntityCollection \<Rightarrow> ('g::len word, 'v) ComponentPool \<Rightarrow> ('g word, 'v) ComponentPool" where
  "Collection_destroy c p =
     (case coll_indexes c of
        None \<Rightarrow> p
      | Some l \<Rightarrow>
          (case coll_endIter c of
             None \<Rightarrow> p
           | Some n \<Rightarrow> p\<lparr>lists := (lists p)(l \<mapsto> node_erase n (the_list p l))\<rparr>))"

text \<open>
  \<open>begin()\<close> and \<open>end()\<close>. The pool the collection points to is passed as \<open>po\<close>, \<open>None\<close> for
  the null pointer.
\<close>

definition Collection_begin ::
  "('g::len word, 'v) ComponentPool option \<Rightarrow> ComponentPoolEntityCollection \<Rightarrow> Iterator" where
  "Collection_begin po c =
     (case coll_indexes c of
        None \<Rightarrow> \<lparr>it_pool = coll_pool c, it_indexes = None, it_iter = None, it_compIndex = 0\<rparr>
      | Some l \<Rightarrow>
          \<lparr>it_pool = coll_pool c, it_indexes = Some l,
           it_iter = (case po of None \<Rightarrow> None | Some p \<Rightarrow> node_begin (the_list p l)),
           it_compIndex = 0\<rparr>)"

definition Collection_end :: "ComponentPoolEntityCollection \<Rightarrow> Iterator" where
  "Collection_end c =
     (case coll_indexes c of
        None \<Rightarrow>
          (case coll_pool c of
             None \<Rightarrow> \<lparr>it_pool = None, it_indexes = None, it_iter = None, it_compIndex = 0\<rparr>
           | Some this \<Rightarrow>
               \<lparr>it_pool = Some this, it_indexes = None, it_iter = None,
                it_compIndex = size_plus_one (coll_lastCompIndex c)\<rparr>)
      | Some l \<Rightarrow>
          \<lparr>it_pool = coll_pool c, it_indexes = Some l, it_iter = coll_endIter c,
           it_compIndex = 0\<rparr>)"

text \<open>\<open>Iterator::operator==\<close>, \<open>operator++\<close> and \<open>operator*\<close>.\<close>

definition Iterator_eq :: "Iterator \<Rightarrow> Iterator \<Rightarrow> bool" where
  "Iterator_eq a b =
     (it_pool a = it_pool b \<and> it_indexes a = it_indexes b \<and> it_compIndex a = it_compIndex b \<and>
      (it_indexes a = None \<or> it_iter a = it_iter b))"

definition Iterator_inc ::
  "('g::len word, 'v) ComponentPool option \<Rightarrow> Iterator \<Rightarrow> error + Iterator" where
  "Iterator_inc po it =
     (case po of
        None \<Rightarrow> Inl AssertionFailed
      | Some p \<Rightarrow>
          (case it_indexes it of
             None \<Rightarrow>
               (let compIndex = size_plus_one (it_compIndex it)
                in if compIndex > Size p then Inl RuntimeError
                   else Inr (it\<lparr>it_compIndex := compIndex\<rparr>))
           | Some l \<Rightarrow>
               (case it_iter it of
                  None \<Rightarrow> Inl RuntimeError
                | Some n \<Rightarrow> Inr (it\<lparr>it_iter := node_next n (the_list p l)\<rparr>))))"

definition Iterator_deref ::
  "('g::len word, 'v) ComponentPool option \<Rightarrow> Iterator \<Rightarrow> error + 'g word Id" where
  "Iterator_deref po it =
     (case po of
        None \<Rightarrow> Inl AssertionFailed
      | Some p \<Rightarrow>
          (case it_indexes it of
             None \<Rightarrow>
               (if it_compIndex it < Size p then entityAt p (it_compIndex it)
                else Inl AssertionFailed)
           | Some l \<Rightarrow>
               (case it_iter it of
                  None \<Rightarrow> Inl RuntimeError
                | Some n \<Rightarrow>
                    (case node_value n (the_list p l) of
                       None \<Rightarrow> Inl UndefinedBehaviour
                     | Some compIndex \<Rightarrow>
                         if compIndex = INVALID_COMP_INDEX then Inr Id_null
                         else entityAt p compIndex))))"

text \<open>
  \<open>KeyedComponentPool::KeyedEntities\<close>: the collection over the bucket of the key, or the
  empty collection when the key has no bucket.
\<close>

definition KeyedEntities ::
  "nat \<Rightarrow> 'v \<Rightarrow> ('g::len word, 'v) ComponentPool \<Rightarrow>
   ComponentPoolEntityCollection \<times> ('g word, 'v) ComponentPool" where
  "KeyedEntities this key p =
     (case compKeyToCompIndex p key of
        Some l \<Rightarrow> Collection_keyed this l p
      | None \<Rightarrow> (Collection_empty, p))"

text \<open>
  \<open>KeyedComponentPool::KeyedEntity\<close>: the first entity of the key's bucket. The collection
  it walks is a temporary, whose end node is erased again before the call returns.
\<close>

definition KeyedEntity ::
  "nat \<Rightarrow> 'v \<Rightarrow> ('g::len word, 'v) ComponentPool \<Rightarrow> error + 'g word Id" where
  "KeyedEntity this key p =
     (case compKeyToCompIndex p key of
        Some l \<Rightarrow>
          (case Collection_keyed this l p of
             (c, p') \<Rightarrow> Iterator_deref (Some p') (Collection_begin (Some p') c))
      | None \<Rightarrow> Inr Id_null)"

section \<open>Queries of the entity manager\<close>

text \<open>
  \<open>EntityManager::EntityCollection\<close>: the mask, the collection over the driving pool and the
  iterate lock, which is the position of the pool it holds in soft-remove mode.
\<close>

record EntityCollection =
  ec_compMask :: ComponentMask
  ec_compEntColl :: ComponentPoolEntityCollection
  ec_iLock :: "nat option"

definition EntityCollection_empty :: EntityCollection where
  "EntityCollection_empty =
     \<lparr>ec_compMask = 0, ec_compEntColl = Collection_empty, ec_iLock = None\<rparr>"

text \<open>The pool a collection points to, in the manager as it is now.\<close>

definition pool_of ::
  "('g::len word, 'v) EntityManager \<Rightarrow> ComponentPoolEntityCollection \<Rightarrow>
   ('g word, 'v) ComponentPool option" where
  "pool_of em c =
     (case coll_pool c of
        None \<Rightarrow> None
      | Some this \<Rightarrow>
          if this < length (componentPools (compMgr em))
          then Some (componentPools (compMgr em) ! this) else None)"

text \<open>
  The search for the smallest pool among the types of the mask, over the pools
  \<open>i, i + 1, \<dots>\<close>, \<open>n\<close> of them still to go; \<open>minSizeCompIndex\<close> is \<open>None\<close> for \<open>-1\<close>.
\<close>

fun smallest_pool ::
  "('g::len word, 'v) ComponentManager \<Rightarrow> ComponentMask \<Rightarrow> nat \<Rightarrow> nat \<Rightarrow> nat \<Rightarrow> nat option \<Rightarrow>
   error + nat option" where
  "smallest_pool cm compMask i 0 minSize minSizeCompIndex = Inr minSizeCompIndex"
| "smallest_pool cm compMask i (Suc n) minSize minSizeCompIndex =
     (case mask_test compMask i of
        Inl err \<Rightarrow> Inl err
      | Inr False \<Rightarrow> smallest_pool cm compMask (i + 1) n minSize minSizeCompIndex
      | Inr True \<Rightarrow>
          (let compSize = Size (componentPools cm ! i)
           in if minSizeCompIndex = None \<or> compSize < minSize
              then smallest_pool cm compMask (i + 1) n compSize (Some i)
              else smallest_pool cm compMask (i + 1) n minSize minSizeCompIndex))"

text \<open>
  \<open>EntityManager::EntitiesWith(compMask)\<close>: the collection over the smallest pool, and
  that pool locked.
\<close>

definition EntitiesWith ::
  "ComponentMask \<Rightarrow> ('g::len word, 'v) EntityManager \<Rightarrow>
   error \<times> ('g word, 'v) EntityManager + EntityCollection \<times> ('g word, 'v) EntityManager" where
  "EntitiesWith compMask em =
     (case smallest_pool (compMgr em) compMask 0 (ComponentTypeCount (compMgr em))
             (2 ^ 64 - 1) None of
        Inl err \<Rightarrow> Inl (err, em)
      | Inr None \<Rightarrow> Inl (OutOfRange, em)
      | Inr (Some minSizeCompIndex) \<Rightarrow>
          (let compEntColl =
                 Entities minSizeCompIndex (componentPools (compMgr em) ! minSizeCompIndex)
           in case in_compMgr (in_pool minSizeCompIndex (toggleSoftRemove True)) em of
                Threw err em' \<Rightarrow> Inl (err, em')
              | Done em' \<Rightarrow>
                  Inr (\<lparr>ec_compMask = compMask, ec_compEntColl = compEntColl,
                        ec_iLock = Some minSizeCompIndex\<rparr>, em')))"

text \<open>\<open>EntityManager::EntitiesWith<CompTypes...>()\<close>.\<close>

definition EntitiesWith_types ::
  "type_index list \<Rightarrow> ('g::len word, 'v) EntityManager \<Rightarrow>
   error \<times> ('g word, 'v) EntityManager + EntityCollection \<times> ('g word, 'v) EntityManager" where
  "EntitiesWith_types compTypes em =
     (case CreateMask (compMgr em) compTypes of
        Inl err \<Rightarrow> Inl (err, em)
      | Inr compMask \<Rightarrow> EntitiesWith compMask em)"

text \<open>
  \<open>EntityManager::EntitiesWith<KeyType, CompTypes...>(key)\<close>. C++ leaves open in which
  order the arguments of the collection's constructor are evaluated; here the mask comes
  first, then the lock, then the keyed collection.
\<close>

definition EntitiesWith_key ::
  "type_index \<Rightarrow> type_index list \<Rightarrow> 'v \<Rightarrow> ('g::len word, 'v) EntityManager \<Rightarrow>
   error \<times> ('g word, 'v) EntityManager + EntityCollection \<times> ('g word, 'v) EntityManager" where
  "EntitiesWith_key keyType compTypes key em =
     (case compTypeToCompIndex (compMgr em) keyType of
        None \<Rightarrow> Inl (UnrecognizedComponentType, em)
      | Some compIndex \<Rightarrow>
          if \<not> compIndex < length (componentPools (compMgr em)) then Inl (OutOfRange, em)
          else if isKeyed (componentPools (compMgr em) ! compIndex) then
            (case CreateMask (compMgr em) (keyType # compTypes) of
               Inl err \<Rightarrow> Inl (err, em)
             | Inr compMask \<Rightarrow>
                 (case in_compMgr (in_pool compIndex (toggleSoftRemove True)) em of
                    Threw err em' \<Rightarrow> Inl (err, em')
                  | Done em' \<Rightarrow>
                      (case KeyedEntities compIndex key
                              (componentPools (compMgr em') ! compIndex) of
                         (compEntColl, pool') \<Rightarrow>
                           Inr (\<lparr>ec_compMask = compMask, ec_compEntColl = compEntColl,
                                 ec_iLock = Some compIndex\<rparr>,
                                em'\<lparr>compMgr := (compMgr em')
                                      \<lparr>componentPools :=
                                         (componentPools (compMgr em'))[compIndex := pool']\<rparr>\<rparr>))))
          else Inr (EntityCollection_empty, em))"

text \<open>\<open>EntityManager::EntityWith(key)\<close>; the default-constructed \<open>Entity\<close> has the null identity.\<close>

definition EntityWith ::
  "type_index \<Rightarrow> 'v \<Rightarrow> ('g::len word, 'v) EntityManager \<Rightarrow> error + 'g word Id" where
  "EntityWith keyType key em =
     (case compTypeToCompIndex (compMgr em) keyType of
        None \<Rightarrow> Inl UnrecognizedComponentType
      | Some compIndex \<Rightarrow>
          if \<not> compIndex < length (componentPools (compMgr em)) then Inl OutOfRange
          else if isKeyed (componentPools (compMgr em) ! compIndex)
          then KeyedEntity compIndex key (componentPools (compMgr em) ! compIndex)
          else Inr Id_null)"

text \<open>
  \<open>EntityCollection::Iterator::operator++\<close>: the pool iterator moves on until it is at the
  end or at an entity whose mask has all the bits asked for. The loop is written as it
  stands; that it returns is a matter of proof.
\<close>

partial_function (option) advance ::
  "('g::len word, 'v) EntityManager \<Rightarrow> ComponentMask \<Rightarrow> ComponentPoolEntityCollection \<Rightarrow>
   Iterator \<Rightarrow> (error + Iterator) option" where
  "advance em compMask compEntColl compIt =
     (case Iterator_inc (pool_of em compEntColl) compIt of
        Inl err \<Rightarrow> Some (Inl err)
      | Inr compIt' \<Rightarrow>
          if Iterator_eq compIt' (Collection_end compEntColl) then Some (Inr compIt')
          else
            (case Iterator_deref (pool_of em compEntColl) compIt' of
               Inl err \<Rightarrow> Some (Inl err)
             | Inr e \<Rightarrow>
                 if \<not> Index e < length (entCompMasks (compMgr em)) then Some (Inl OutOfRange)
                 else if and (entCompMasks (compMgr em) ! Index e) compMask = compMask
                 then Some (Inr compIt')
                 else advance em compMask compEntColl compIt'))"

text \<open>
  The constructor of \<open>EntityCollection::Iterator\<close>, which moves on from its first position
  when the entity there does not have the mask. \<open>EntityCollection::begin()\<close> builds the
  iterator from the collection's \<open>begin()\<close>, \<open>EntityCollection::end()\<close> from its \<open>end()\<close>,
  where the constructor has nothing to do.
\<close>

definition Iterator_new ::
  "('g::len word, 'v) EntityManager \<Rightarrow> ComponentMask \<Rightarrow> ComponentPoolEntityCollection \<Rightarrow>
   Iterator \<Rightarrow> (error + Iterator) option" where
  "Iterator_new em compMask compEntColl compIt =
     (if \<not> Iterator_eq compIt (Collection_end compEntColl) then
        (case Iterator_deref (pool_of em compEntColl) compIt of
           Inl err \<Rightarrow> Some (Inl err)
         | Inr e \<Rightarrow>
             if \<not> Index e < length (entCompMasks (compMgr em)) then Some (Inl OutOfRange)
             else if and (entCompMasks (compMgr em) ! Index e) compMask \<noteq> compMask
             then advance em compMask compEntColl compIt
             else Some (Inr compIt))
      else Some (Inr compIt))"

definition EntityCollection_begin ::
  "('g::len word, 'v) EntityManager \<Rightarrow> EntityCollection \<Rightarrow> (error + Iterator) option" where
  "EntityCollection_begin em ec =
     Iterator_new em (ec_compMask ec) (ec_compEntColl ec)
       (Collection_begin (pool_of em (ec_compEntColl ec)) (ec_compEntColl ec))"

text \<open>
  The range-based \<open>for\<close> over an entity collection, from the iterator \<open>it\<close> on: while \<open>it\<close>
  is not the end, the entity under it is handed to the loop's body, and then \<open>it\<close> is
  incremented. The result is the manager as the loop leaves it and the entities the
  body has seen, in order.
\<close>

partial_function (option) for_loop ::
  "('g::len word Id \<Rightarrow> ('g word, 'v) EntityManager \<Rightarrow> ('g word, 'v) EntityManager outcome) \<Rightarrow>
   EntityCollection \<Rightarrow> Iterator \<Rightarrow> ('g word, 'v) EntityManager \<Rightarrow> 'g word Id list \<Rightarrow>
   (('g word, 'v) EntityManager outcome \<times> 'g word Id list) option" where
  "for_loop body ec it em visited =
     (if Iterator_eq it (Collection_end (ec_compEntColl ec)) then Some (Done em, visited)
      else
        (case Iterator_deref (pool_of em (ec_compEntColl ec)) it of
           Inl err \<Rightarrow> Some (Threw err em, visited)
         | Inr e \<Rightarrow>
             (case body e em of
                Threw err em' \<Rightarrow> Some (Threw err em', visited @ [e])
              | Done em' \<Rightarrow>
                  (case advance em' (ec_compMask ec) (ec_compEntColl ec) it of
                     None \<Rightarrow> None
                   | Some (Inl err) \<Rightarrow> Some (Threw err em', visited @ [e])
                   | Some (Inr it') \<Rightarrow> for_loop body ec it' em' (visited @ [e])))))"

definition for_each ::
  "('g::len word Id \<Rightarrow> ('g word, 'v) EntityManager \<Rightarrow> ('g word, 'v) EntityManager outcome) \<Rightarrow>
   EntityCollection \<Rightarrow> ('g word, 'v) EntityManager \<Rightarrow>
   (('g word, 'v) EntityManager outcome \<times> 'g word Id list) option" where
  "for_each body ec em =
     (case EntityCollection_begin em ec of
        None \<Rightarrow> None
      | Some (Inl err) \<Rightarrow> Some (Threw err em, [])
      | Some (Inr it) \<Rightarrow> for_loop body ec it em [])"

section \<open>Vocabulary of the properties\<close>

text \<open>The iterator over the array of pool \<open>d\<close> that stands at position \<open>k\<close>.\<close>

definition array_iterator :: "nat \<Rightarrow> nat \<Rightarrow> Iterator" where
  "array_iterator d k = \<lparr>it_pool = Some d, it_indexes = None, it_iter = None, it_compIndex = k\<rparr>"

text \<open>The test both loops of the entity iterator make: the entity's mask has all bits of \<open>compMask\<close>.\<close>

definition has_mask :: "('g::len word, 'v) EntityManager \<Rightarrow> ComponentMask \<Rightarrow> 'g word Id \<Rightarrow> bool" where
  "has_mask em compMask e = (and (entCompMasks (compMgr em) ! Index e) compMask = compMask)"

text \<open>
  What a loop over the collection \<open>c\<close> finds in the manager \<open>em\<close>: \<open>begin()\<close> is the iterator
  \<open>itv 0\<close>, incrementing \<open>itv j\<close> gives \<open>itv (j + 1)\<close> and dereferencing it gives the \<open>j\<close>-th of
  the entities \<open>xs\<close>, whose masks exist, and \<open>itv j\<close> is the end exactly behind the last of them.
\<close>

definition walks ::
  "('g::len word, 'v) EntityManager \<Rightarrow> ComponentPoolEntityCollection \<Rightarrow> (nat \<Rightarrow> Iterator) \<Rightarrow>
   'g word Id list \<Rightarrow> bool" where
  "walks em c itv xs =
     (Collection_begin (pool_of em c) c = itv 0 \<and>
      (\<forall>j<length xs. Iterator_inc (pool_of em c) (itv j) = Inr (itv (Suc j)) \<and>
                      Iterator_deref (pool_of em c) (itv j) = Inr (xs ! j)) \<and>
      (\<forall>j\<le>length xs. Iterator_eq (itv j) (Collection_end c) = (j = length xs)) \<and>
      (\<forall>e \<in> set xs. Index e < length (entCompMasks (compMgr em))))"

section \<open>States for the examples\<close>

text \<open>
  The examples run on a manager with generations of 16 bits, values that are numbers, and
  a recycle threshold of three free indexes.
\<close>

definition em_one :: "(16 word, nat) EntityManager" where
  "em_one = (case NewEntity 3 EntityManager_new of Inl x \<Rightarrow> snd x | Inr r \<Rightarrow> snd r)"

definition e_one :: "16 word Id" where
  "e_one = \<lparr>Index = 1, Generation = 0\<rparr>"


text \<open>The component manager of \<open>em_one\<close> once the type \<open>Position\<close> is registered.\<close>

definition cm_registered :: "(16 word, nat) ComponentManager" where
  "cm_registered = state_of (RegisterComponentType False ''Position'' (compMgr em_one))"

text \<open>The same manager after \<open>Set<Position>(e_one, 7)\<close> instead.\<close>

definition cm_position :: "(16 word, nat) ComponentManager" where
  "cm_position = state_of (ComponentManager_Set False ''Position'' e_one 7 (compMgr em_one))"

text \<open>\<open>Set<Position>(e_one, 8)\<close> on top of that, and then \<open>Remove<Position>(e_one)\<close>.\<close>

definition cm_twice :: "(16 word, nat) ComponentManager" where
  "cm_twice = state_of (ComponentManager_Set False ''Position'' e_one 8 cm_position)"

definition cm_twice_removed :: "(16 word, nat) ComponentManager" where
  "cm_twice_removed = state_of (ComponentManager_Remove ''Position'' e_one cm_twice)"

text \<open>
  A plain pool with the records of three entities; then under an iterate lock; then with
  the components of the first and of the third entity removed under the lock; then with
  the lock released.
\<close>

definition e_two :: "16 word Id" where
  "e_two = \<lparr>Index = 2, Generation = 0\<rparr>"

definition e_three :: "16 word Id" where
  "e_three = \<lparr>Index = 3, Generation = 0\<rparr>"

definition pool_three :: "(16 word, nat) ComponentPool" where
  "pool_three =
     ComponentPool_Set e_three 30
       (ComponentPool_Set e_two 20 (ComponentPool_Set e_one 10 (ComponentPool_new False)))"

definition pool_locked :: "(16 word, nat) ComponentPool" where
  "pool_locked = state_of (toggleSoftRemove True pool_three)"

definition pool_soft_removed :: "(16 word, nat) ComponentPool" where
  "pool_soft_removed =
     state_of (and_then (ComponentPool_Remove e_one pool_locked) (ComponentPool_Remove e_three))"

definition pool_released :: "(16 word, nat) ComponentPool" where
  "pool_released = state_of (toggleSoftRemove False pool_soft_removed)"

text \<open>The manager \<open>em_one\<close> with the type \<open>Position\<close> registered as a plain type.\<close>

definition em_registered :: "(16 word, nat) EntityManager" where
  "em_registered = em_one\<lparr>compMgr := cm_registered\<rparr>"

text \<open>
  The regression test of the repository for the first position of a query: six entities,
  \<open>Position\<close> on the first three, \<open>Eater\<close> on the third and on the last three, so that the
  \<open>Position\<close> pool is the smaller one and its first two records belong to entities
  without an \<open>Eater\<close>.
\<close>

fun new_entities :: "nat \<Rightarrow> ('g::len word, 'v) EntityManager \<Rightarrow> ('g word, 'v) EntityManager" where
  "new_entities 0 em = em"
| "new_entities (Suc n) em =
     (case NewEntity 3 em of Inl x \<Rightarrow> snd x | Inr r \<Rightarrow> new_entities n (snd r))"

definition ent :: "nat \<Rightarrow> 16 word Id" where
  "ent i = \<lparr>Index = i, Generation = 0\<rparr>"

definition give ::
  "type_index \<Rightarrow> 'g::len word Id \<Rightarrow> 'v \<Rightarrow> ('g word, 'v) EntityManager \<Rightarrow> ('g word, 'v) EntityManager" where
  "give compType e v em = state_of (in_compMgr (ComponentManager_Set False compType e v) em)"





text \<open>
  What a loop's body has to leave alone for the traversal to go on as it started: the
  masks of the entities \<open>xs\<close> the collection held when it was made still say, bit for bit
  of \<open>compMask\<close>, what they said in \<open>em\<close>; and the first records of the driving pool \<open>d\<close> are
  still owned by those entities. Appending records, which is all that creating entities
  and setting their components does, keeps both.
\<close>

definition masks_kept ::
  "'g::len word Id list \<Rightarrow> ComponentMask \<Rightarrow> ('g word, 'v) EntityManager \<Rightarrow>
   ('g word, 'v) EntityManager \<Rightarrow> bool" where
  "masks_kept xs compMask em s =
     (\<forall>e \<in> set xs. Index e < length (entCompMasks (compMgr s)) \<and>
                     has_mask s compMask e = has_mask em compMask e)"

definition array_snapshot_kept ::
  "nat \<Rightarrow> 'g::len word Id list \<Rightarrow> ('g word, 'v) EntityManager \<Rightarrow> bool" where
  "array_snapshot_kept d xs s =
     (d < length (componentPools (compMgr s)) \<and>
      length xs \<le> Size (componentPools (compMgr s) ! d) \<and>
      (\<forall>j<length xs. eid (components (componentPools (compMgr s) ! d) ! j) = xs ! j))"

text \<open>
  The same for a keyed traversal: \<open>zs\<close> are the nodes the bucket list \<open>l\<close> had when the
  collection was made, the collection's own end node last. The list still starts with
  them, and the records their values point to are still owned by the entities \<open>xs\<close>.
\<close>

definition bucket_snapshot_kept ::
  "nat \<Rightarrow> nat \<Rightarrow> (nat \<times> nat) list \<Rightarrow> 'g::len word Id list \<Rightarrow> ('g word, 'v) EntityManager \<Rightarrow> bool" where
  "bucket_snapshot_kept d l zs xs s =
     (d < length (componentPools (compMgr s)) \<and>
      (\<exists>extra. the_list (componentPools (compMgr s) ! d) l = zs @ extra) \<and>
      (\<forall>j<length xs. snd (zs ! j) < Size (componentPools (compMgr s) ! d) \<and>
                      eid (components (componentPools (compMgr s) ! d) ! snd (zs ! j)) = xs ! j))"

text \<open>The iterator into the bucket list \<open>l\<close> of pool \<open>d\<close> that stands at the \<open>j\<close>-th node of \<open>zs\<close>.\<close>

definition keyed_iterator :: "nat \<Rightarrow> nat \<Rightarrow> (nat \<times> nat) list \<Rightarrow> nat \<Rightarrow> Iterator" where
  "keyed_iterator d l zs j =
     \<lparr>it_pool = Some d, it_indexes = Some l, it_iter = Some (fst (zs ! j)), it_compIndex = 0\<rparr>"

text \<open>
  A bucket list as the pool's own operations leave it: its nodes have different names,
  all allocated before \<open>fresh\<close>, and none holds \<open>INVALID_COMP_INDEX\<close>.
\<close>

definition bucket_nodes_ok :: "('g::len word, 'v) ComponentPool \<Rightarrow> nat \<Rightarrow> bool" where
  "bucket_nodes_ok p l =
     (distinct (node_ids (the_list p l)) \<and>
      (\<forall>nd \<in> set (the_list p l). fst nd < fresh p \<and> snd nd \<noteq> INVALID_COMP_INDEX))"

text \<open>
  What C3 says of a loop's result: the loop returns; the entities it has visited are, in
  order, entities with the mask among \<open>xs\<close>, those the collection held when it was made,
  all of them when the loop ran to its end; so an entity that is not among \<open>xs\<close> is not
  visited.
\<close>

definition visits_snapshot ::
  "(('g::len word, 'v) EntityManager outcome \<times> 'g word Id list) option \<Rightarrow> ('g word Id \<Rightarrow> bool) \<Rightarrow>
   'g word Id list \<Rightarrow> bool" where
  "visits_snapshot result M xs =
     (\<exists>out vis. result = Some (out, vis) \<and>
                (\<exists>rest. filter M xs = vis @ rest) \<and>
                (is_Done out \<longrightarrow> vis = filter M xs) \<and>
                (\<forall>e. e \<notin> set xs \<longrightarrow> e \<notin> set vis))"

text \<open>
  The tests of the repository that add entities while iterating: one entity with a
  \<open>Position\<close>, plain or keyed by the value \<open>12\<close>, and a loop body that creates an entity and
  gives it the same component.
\<close>

definition create_with ::
  "bool \<Rightarrow> type_index \<Rightarrow> 'v \<Rightarrow> 'g::len word Id \<Rightarrow> ('g word, 'v) EntityManager \<Rightarrow>
   ('g word, 'v) EntityManager outcome" where
  "create_with asKey compType v e em =
     (case NewEntity 3 em of
        Inl x \<Rightarrow> Threw (fst x) (snd x)
      | Inr r \<Rightarrow> in_compMgr (ComponentManager_Set asKey compType (fst r) v) (snd r))"

definition em_alone :: "(16 word, nat) EntityManager" where
  "em_alone = give ''Position'' (ent 1) 0 (new_entities 1 EntityManager_new)"

definition query_alone :: "EntityCollection \<times> (16 word, nat) EntityManager" where
  "query_alone =
     (case EntitiesWith_types [''Position''] em_alone of
        Inl x \<Rightarrow> (EntityCollection_empty, snd x)
      | Inr r \<Rightarrow> r)"

definition em_keyed :: "(16 word, nat) EntityManager" where
  "em_keyed =
     state_of (in_compMgr (ComponentManager_Set True ''Position'' (ent 1) 12)
                 (new_entities 1 EntityManager_new))"

definition query_keyed :: "EntityCollection \<times> (16 word, nat) EntityManager" where
  "query_keyed =
     (case EntitiesWith_key ''Position'' [] 12 em_keyed of
        Inl x \<Rightarrow> (EntityCollection_empty, snd x)
      | Inr r \<Rightarrow> r)"




text \<open>
  The vocabulary of the keyed pool. The bucket of a key: the owners of the records the
  nodes of the key's list point to, in the order of the list; empty when the key has no
  list. These are the identities an iterator over \<open>KeyedEntities(key)\<close> dereferences.
\<close>

definition bucket :: "('g::len word, 'v) ComponentPool \<Rightarrow> 'v \<Rightarrow> 'g word Id list" where
  "bucket p key =
     (case compKeyToCompIndex p key of
        None \<Rightarrow> []
      | Some l \<Rightarrow> map (\<lambda>nd. eid (components p ! snd nd)) (the_list p l))"

text \<open>The entity's entry of the reverse map points to a record of the pool that it owns.\<close>

definition owns :: "('g::len word, 'v) ComponentPool \<Rightarrow> 'g word Id \<Rightarrow> bool" where
  "owns p e =
     (case entIndexToCompIndex p (Index e) of
        None \<Rightarrow> False
      | Some k \<Rightarrow> k \<noteq> INVALID_COMP_INDEX \<and> k < length (components p) \<and>
                  eid (components p ! k) = e)"

text \<open>
  A keyed pool as \<open>KeyedComponentPool::Set\<close> builds it when no entity is given a second
  record, with no collection over a bucket in existence: every key of the index has a
  list that is not empty, whose nodes have different names; each node holds the position
  of a record with that key which is linked to this list through this node; every record
  is linked to the list of its key through one of the list's nodes, and is the record the
  reverse map gives for its owner. Lists and nodes were allocated before \<open>fresh\<close>.
\<close>

definition keyed_ok :: "('g::len word, 'v) ComponentPool \<Rightarrow> bool" where
  "keyed_ok p =
     (isKeyed p \<and>
      (\<forall>key l. compKeyToCompIndex p key = Some l \<longrightarrow>
          l < fresh p \<and> the_list p l \<noteq> [] \<and> distinct (node_ids (the_list p l)) \<and>
          (\<forall>nd \<in> set (the_list p l).
              fst nd < fresh p \<and> snd nd < length (components p) \<and>
              keyedList (components p ! snd nd) = Some l \<and>
              keyedIterator (components p ! snd nd) = fst nd \<and>
              cvalue (components p ! snd nd) = key)) \<and>
      (\<forall>j<length (components p).
          entIndexToCompIndex p (Index (eid (components p ! j))) = Some j \<and>
          (\<exists>l. keyedList (components p ! j) = Some l \<and>
               compKeyToCompIndex p (cvalue (components p ! j)) = Some l \<and>
               (keyedIterator (components p ! j), j) \<in> set (the_list p l))))"

text \<open>
  A keyed pool where the entities 1 and 2 share the key 12 and the entity 3 has the key 5;
  then with the component of entity 1 removed, and then that of entity 2.
\<close>

definition pool_shared :: "(16 word, nat) ComponentPool" where
  "pool_shared =
     state_of (and_then (and_then (KeyedComponentPool_Set e_one 12 (ComponentPool_new True))
                           (KeyedComponentPool_Set e_two 12))
                 (KeyedComponentPool_Set e_three 5))"

definition pool_shared_less :: "(16 word, nat) ComponentPool" where
  "pool_shared_less = state_of (ComponentPool_Remove e_one pool_shared)"

definition pool_shared_none :: "(16 word, nat) ComponentPool" where
  "pool_shared_none = state_of (ComponentPool_Remove e_two pool_shared_less)"

section \<open>Properties\<close>

subsection \<open>Evaluating the example states\<close>

lemma em_one_eq:
  "em_one = \<lparr>entIndexToGen = [0, 0], indexIsAlive = [False, True], freeEntityIndexes = [],
             compMgr = \<lparr>compTypeToCompIndex = Map.empty, componentPools = [],
                        entCompMasks = [0, 0]\<rparr>\<rparr>"
  by (simp add: em_one_def NewEntity_def EntityManager_new_def)


subsection \<open>C6: validity of an identity\<close>




subsection \<open>What \<open>Set\<close> and \<open>Remove\<close> of the component manager leave behind\<close>

lemma KeyedComponentPool_Set_Done:
  assumes "KeyedComponentPool_Set e v p = Done p'"
  shows "entIndexToCompIndex p' (Index e) = Some (length (components p)) \<and>
         length (components p') = Suc (length (components p)) \<and>
         cvalue (components p' ! length (components p)) = v"
  using assms
  by (auto simp: KeyedComponentPool_Set_def Let_def nth_append split: option.splits)

lemma ComponentPool_Set_facts:
  "entIndexToCompIndex (ComponentPool_Set e v p) (Index e) = Some (length (components p)) \<and>
   length (components (ComponentPool_Set e v p)) = Suc (length (components p)) \<and>
   cvalue (components (ComponentPool_Set e v p) ! length (components p)) = v"
  by (simp add: ComponentPool_Set_def Let_def nth_append)

lemma set_at_Done:
  assumes "set_at asKey i e v cm = Done cm'"
  shows "compTypeToCompIndex cm' = compTypeToCompIndex cm \<and> i < 64 \<and>
         Index e < length (entCompMasks cm') \<and> bit (entCompMasks cm' ! Index e) i \<and>
         i < length (componentPools cm') \<and> i < length (componentPools cm) \<and>
         entIndexToCompIndex (componentPools cm' ! i) (Index e) =
           Some (length (components (componentPools cm ! i))) \<and>
         length (components (componentPools cm' ! i)) =
           Suc (length (components (componentPools cm ! i))) \<and>
         cvalue (components (componentPools cm' ! i) ! length (components (componentPools cm ! i))) = v"
proof (cases asKey)
  case True
  from assms True obtain pool' where
    k: "KeyedComponentPool_Set e v (componentPools cm ! i) = Done pool'" and
    r: "Index e < length (entCompMasks cm)" "i < 64" "i < length (componentPools cm)"
       "cm' = cm\<lparr>entCompMasks := (entCompMasks cm)[Index e := set_bit i (entCompMasks cm ! Index e)],
                 componentPools := (componentPools cm)[i := pool']\<rparr>"
    by (auto simp: set_at_def mask_set_def MAX_COMPONENTS_def Let_def
             split: if_splits sum.splits outcome.splits)
  show ?thesis using KeyedComponentPool_Set_Done [OF k] r
    by (simp add: bit_set_bit_iff)
next
  case False
  from assms False have
    r: "Index e < length (entCompMasks cm)" "i < 64" "i < length (componentPools cm)"
       "cm' = cm\<lparr>entCompMasks := (entCompMasks cm)[Index e := set_bit i (entCompMasks cm ! Index e)],
                 componentPools :=
                   (componentPools cm)[i := ComponentPool_Set e v (componentPools cm ! i)]\<rparr>"
    by (auto simp: set_at_def mask_set_def MAX_COMPONENTS_def Let_def
             split: if_splits sum.splits)
  show ?thesis using ComponentPool_Set_facts [of e v "componentPools cm ! i"] r
    by (simp add: bit_set_bit_iff)
qed

lemma Has_Get_after_set_at:
  assumes s: "set_at asKey i e v cm = Done cm'"
    and t: "compTypeToCompIndex cm T = Some i"
    and sz: "Size (componentPools cm ! i) < INVALID_COMP_INDEX"
  shows "ComponentManager_Has T cm' e = Inr True \<and> ComponentManager_Get T cm' e = Inr v"
proof -
  note f = set_at_Done [OF s]
  have h: "ComponentManager_Has T cm' e = Inr True"
    using f t by (simp add: ComponentManager_Has_def)
  have hc: "HasComponent (componentPools cm' ! i) e"
    using f sz by (simp add: HasComponent_def Size_def)
  have g: "ComponentPool_Get (componentPools cm' ! i) e = Inr v"
    using f hc by (simp add: ComponentPool_Get_def)
  show ?thesis using h g f t by (simp add: ComponentManager_Get_def)
qed

lemma Set_then_Has_Get:
  assumes sz: "\<forall>p \<in> set (componentPools cm). Size p < INVALID_COMP_INDEX"
    and s: "ComponentManager_Set asKey T e v cm = Done cm'"
  shows "ComponentManager_Has T cm' e = Inr True \<and> ComponentManager_Get T cm' e = Inr v"
proof (cases "compTypeToCompIndex cm T")
  case (Some i)
  with s have sa: "set_at asKey i e v cm = Done cm'"
    by (simp add: ComponentManager_Set_def)
  from set_at_Done [OF sa] have "i < length (componentPools cm)" by simp
  with sz have "Size (componentPools cm ! i) < INVALID_COMP_INDEX" by simp
  from Has_Get_after_set_at [OF sa Some this] show ?thesis .
next
  case None
  define cm1 where
    "cm1 = cm\<lparr>compTypeToCompIndex := (compTypeToCompIndex cm)(T \<mapsto> length (componentPools cm)),
              componentPools := componentPools cm @ [ComponentPool_new asKey]\<rparr>"
  from s None have sa: "set_at asKey (length (componentPools cm)) e v cm1 = Done cm'"
    by (simp add: ComponentManager_Set_def RegisterComponentType_def Let_def cm1_def)
  have t: "compTypeToCompIndex cm1 T = Some (length (componentPools cm))"
    by (simp add: cm1_def)
  have "Size (componentPools cm1 ! length (componentPools cm)) < INVALID_COMP_INDEX"
    by (simp add: cm1_def Size_def ComponentPool_new_def INVALID_COMP_INDEX_def)
  from Has_Get_after_set_at [OF sa t this] show ?thesis .
qed

lemma in_pool_frame:
  assumes "in_pool i f cm = Done cm'"
  shows "compTypeToCompIndex cm' = compTypeToCompIndex cm \<and> entCompMasks cm' = entCompMasks cm \<and>
         length (componentPools cm') = length (componentPools cm)"
  using assms by (auto simp: in_pool_def split: if_splits outcome.splits)

lemma reset_bit_Done:
  assumes "reset_bit i e cm = Done cm'"
  shows "compTypeToCompIndex cm' = compTypeToCompIndex cm \<and>
         componentPools cm' = componentPools cm \<and>
         entCompMasks cm' = (entCompMasks cm)[Index e := unset_bit i (entCompMasks cm ! Index e)]"
  using assms by (auto simp: reset_bit_def mask_reset_def split: if_splits sum.splits)

lemma Remove_then_Has_Get:
  assumes r: "ComponentManager_Remove T e cm = Done cm'"
  shows "ComponentManager_Has T cm' e = Inr False \<and>
         ComponentManager_Get T cm' e = Inl RuntimeError"
proof -
  from r obtain i cm1 where t: "compTypeToCompIndex cm T = Some i"
    and ix: "Index e < length (entCompMasks cm)"
    and p: "in_pool i (ComponentPool_Remove e) cm = Done cm1"
    and b: "reset_bit i e cm1 = Done cm'"
    by (auto simp: ComponentManager_Remove_def split: option.splits if_splits)
       (metis and_then.elims outcome.distinct(1))
  have h: "ComponentManager_Has T cm' e = Inr False"
    using in_pool_frame [OF p] reset_bit_Done [OF b] t ix
    by (simp add: ComponentManager_Has_def bit_unset_bit_iff)
  then show ?thesis by (simp add: ComponentManager_Get_def)
qed

lemma cm_position_eq:
  "ComponentManager_Set False ''Position'' e_one 7 (compMgr em_one) = Done cm_position"
  by (simp add: cm_position_def em_one_eq e_one_def ComponentManager_Set_def
      RegisterComponentType_def set_at_def mask_set_def MAX_COMPONENTS_def Let_def)

subsection \<open>C4: \<open>Has\<close> and \<open>Get\<close> after \<open>Set\<close> and after \<open>Remove\<close>\<close>

text \<open>
  C4: for every entity \<open>e\<close>, once \<open>Set<T>(e, v)\<close> has returned, \<open>Has<T>(e)\<close> is true and
  \<open>Get<T>(e)\<close> is the value just set; once \<open>Remove<T>(e)\<close> has returned, \<open>Has<T>(e)\<close> is
  false and \<open>Get<T>(e)\<close> fails. The pools are taken to hold fewer records than
  \<open>size_t\<close> has values, as every vector does.
\<close>

theorem C4_Has_Get_after_Set_and_Remove:
  assumes "\<forall>p \<in> set (componentPools cm). Size p < INVALID_COMP_INDEX"
  shows "(ComponentManager_Set asKey T e v cm = Done cm' \<longrightarrow>
            ComponentManager_Has T cm' e = Inr True \<and> ComponentManager_Get T cm' e = Inr v) \<and>
         (ComponentManager_Remove T e cm = Done cm'' \<longrightarrow>
            ComponentManager_Has T cm'' e = Inr False \<and>
            ComponentManager_Get T cm'' e = Inl RuntimeError)"
  using Set_then_Has_Get [OF assms] Remove_then_Has_Get by blast

theorem C4_Has_Get_after_Set_and_Remove_witness:
  "ComponentManager_Set False ''Position'' e_one 7 (compMgr em_one) = Done cm_position \<and>
   ComponentManager_Has ''Position'' cm_position e_one = Inr True \<and>
   ComponentManager_Get ''Position'' cm_position e_one = Inr 7 \<and>
   is_Done (ComponentManager_Remove ''Position'' e_one cm_position) \<and>
   ComponentManager_Has ''Position''
     (state_of (ComponentManager_Remove ''Position'' e_one cm_position)) e_one = Inr False \<and>
   ComponentManager_Get ''Position''
     (state_of (ComponentManager_Remove ''Position'' e_one cm_position)) e_one = Inl RuntimeError"
proof -
  have s: "\<forall>p \<in> set (componentPools (compMgr em_one)). Size p < INVALID_COMP_INDEX"
    by (simp add: em_one_eq)
  have s': "\<forall>p \<in> set (componentPools cm_position). Size p < INVALID_COMP_INDEX"
    by (simp add: cm_position_def em_one_eq e_one_def ComponentManager_Set_def
        RegisterComponentType_def set_at_def mask_set_def MAX_COMPONENTS_def Let_def
        ComponentPool_Set_def ComponentPool_new_def Size_def INVALID_COMP_INDEX_def)
  have r: "is_Done (ComponentManager_Remove ''Position'' e_one cm_position)"
    by (simp add: cm_position_def em_one_eq e_one_def ComponentManager_Set_def
        RegisterComponentType_def set_at_def mask_set_def MAX_COMPONENTS_def Let_def
        ComponentPool_Set_def ComponentPool_new_def ComponentManager_Remove_def in_pool_def
        ComponentPool_Remove_def INVALID_COMP_INDEX_def remove_virtual_def
        ComponentPool_remove_def size_minus_one_def reset_bit_def mask_reset_def
        bit_set_bit_iff)
  then have r': "ComponentManager_Remove ''Position'' e_one cm_position =
                 Done (state_of (ComponentManager_Remove ''Position'' e_one cm_position))"
    by (cases "ComponentManager_Remove ''Position'' e_one cm_position") simp_all
  show ?thesis
    using C4_Has_Get_after_Set_and_Remove [OF s, of False "''Position''" e_one 7 cm_position]
      C4_Has_Get_after_Set_and_Remove [OF s', of False "''Position''" e_one 7 cm_position
        "state_of (ComponentManager_Remove ''Position'' e_one cm_position)"]
      r r' cm_position_eq
    by simp
qed

subsection \<open>C9: component types that were never registered\<close>

lemma unregistered_calls_fail:
  assumes "compTypeToCompIndex cm T = None"
  shows "ComponentManager_Get T cm e = Inl UnrecognizedComponentType \<and>
         ComponentManager_Has T cm e = Inl UnrecognizedComponentType \<and>
         ComponentManager_Remove T e cm = Threw UnrecognizedComponentType cm"
  using assms
  by (simp add: ComponentManager_Get_def ComponentManager_Has_def ComponentManager_Remove_def)

lemma Set_unregistered_succeeds:
  assumes t: "compTypeToCompIndex cm T = None"
    and ix: "Index e < length (entCompMasks cm)"
    and n: "length (componentPools cm) < MAX_COMPONENTS"
  shows "\<exists>cm'. ComponentManager_Set False T e v cm = Done cm' \<and>
               compTypeToCompIndex cm' T = Some (length (componentPools cm)) \<and>
               ComponentManager_Has T cm' e = Inr True \<and>
               ComponentManager_Get T cm' e = Inr v \<and>
               is_Done (ComponentManager_Remove T e cm')"
  using assms
  by (simp add: ComponentManager_Set_def RegisterComponentType_def Let_def set_at_def
      mask_set_def ComponentPool_Set_def ComponentPool_new_def ComponentManager_Remove_def
      in_pool_def ComponentPool_Remove_def INVALID_COMP_INDEX_def remove_virtual_def
      ComponentPool_remove_def size_minus_one_def reset_bit_def mask_reset_def bit_set_bit_iff
      MAX_COMPONENTS_def ComponentManager_Has_def ComponentManager_Get_def
      ComponentPool_Get_def HasComponent_def)

lemma registered_calls:
  assumes t: "compTypeToCompIndex cm T = None"
    and ix: "Index e < length (entCompMasks cm)"
    and b: "\<not> bit (entCompMasks cm ! Index e) (length (componentPools cm))"
  shows "\<exists>cm1. RegisterComponentType False T cm = Done cm1 \<and>
               ComponentManager_Has T cm1 e = Inr False \<and>
               ComponentManager_Get T cm1 e = Inl RuntimeError \<and>
               ComponentManager_Remove T e cm1 = Threw RuntimeError cm1"
  using assms
  by (auto simp: RegisterComponentType_def Let_def ComponentManager_Has_def
      ComponentManager_Get_def ComponentManager_Remove_def)

text \<open>
  C9, as the claim states it, fails in its last part: registering the type does not make
  the \<open>Get\<close> and the \<open>Remove\<close> that failed succeed. On the manager with one entity,
  \<open>Get<Position>\<close> fails with the unrecognized-type condition, and after
  \<open>RegisterComponentType<Position>\<close> both calls still fail, now because the entity has no
  such component.
\<close>

theorem C9_Get_and_Remove_still_fail_once_registered:
  "ComponentManager_Get ''Position'' (compMgr em_one) e_one = Inl UnrecognizedComponentType \<and>
   RegisterComponentType False ''Position'' (compMgr em_one) = Done cm_registered \<and>
   ComponentManager_Get ''Position'' cm_registered e_one = Inl RuntimeError \<and>
   ComponentManager_Remove ''Position'' e_one cm_registered = Threw RuntimeError cm_registered"
  by (simp add: cm_registered_def em_one_eq e_one_def RegisterComponentType_def Let_def
      ComponentManager_Get_def ComponentManager_Has_def ComponentManager_Remove_def)

text \<open>
  C9, amended: for a type that was never registered, \<open>Get\<close>, \<open>Has\<close> and \<open>Remove\<close> each fail
  with the unrecognized-type condition, while \<open>Set\<close> registers the type and succeeds (for
  an entity of the mask table and fewer than 64 types); after that \<open>Set\<close> the three calls
  succeed on that entity. After a registration alone \<open>Has\<close> succeeds, and \<open>Get\<close> and \<open>Remove\<close>
  fail with the runtime error of a missing component, no longer with the
  unrecognized-type condition.
\<close>

theorem C9_unregistered_component_type:
  assumes "compTypeToCompIndex cm T = None"
    and "Index e < length (entCompMasks cm)"
    and "length (componentPools cm) < MAX_COMPONENTS"
    and "\<not> bit (entCompMasks cm ! Index e) (length (componentPools cm))"
  shows "ComponentManager_Get T cm e = Inl UnrecognizedComponentType \<and>
         ComponentManager_Has T cm e = Inl UnrecognizedComponentType \<and>
         ComponentManager_Remove T e cm = Threw UnrecognizedComponentType cm \<and>
         (\<exists>cm'. ComponentManager_Set False T e v cm = Done cm' \<and>
                compTypeToCompIndex cm' T = Some (length (componentPools cm)) \<and>
                ComponentManager_Has T cm' e = Inr True \<and>
                ComponentManager_Get T cm' e = Inr v \<and>
                is_Done (ComponentManager_Remove T e cm')) \<and>
         (\<exists>cm1. RegisterComponentType False T cm = Done cm1 \<and>
                ComponentManager_Has T cm1 e = Inr False \<and>
                ComponentManager_Get T cm1 e = Inl RuntimeError \<and>
                ComponentManager_Remove T e cm1 = Threw RuntimeError cm1)"
  using unregistered_calls_fail [OF assms(1)]
    Set_unregistered_succeeds [OF assms(1) assms(2) assms(3)]
    registered_calls [OF assms(1) assms(2) assms(4)]
  by blast

theorem C9_unregistered_component_type_witness:
  "compTypeToCompIndex (compMgr em_one) ''Position'' = None \<and>
   Index e_one < length (entCompMasks (compMgr em_one)) \<and>
   length (componentPools (compMgr em_one)) < MAX_COMPONENTS \<and>
   \<not> bit (entCompMasks (compMgr em_one) ! Index e_one) (length (componentPools (compMgr em_one))) \<and>
   ComponentManager_Has ''Position'' (compMgr em_one) e_one = Inl UnrecognizedComponentType \<and>
   (\<exists>cm'. ComponentManager_Set False ''Position'' e_one 7 (compMgr em_one) = Done cm' \<and>
          ComponentManager_Get ''Position'' cm' e_one = Inr 7)"
proof -
  have h: "compTypeToCompIndex (compMgr em_one) ''Position'' = None"
    "Index e_one < length (entCompMasks (compMgr em_one))"
    "length (componentPools (compMgr em_one)) < MAX_COMPONENTS"
    "\<not> bit (entCompMasks (compMgr em_one) ! Index e_one) (length (componentPools (compMgr em_one)))"
    by (simp_all add: em_one_eq e_one_def MAX_COMPONENTS_def)
  show ?thesis
    using C9_unregistered_component_type [OF h, of 7] h by blast
qed

subsection \<open>C5: \<open>Set\<close> on an entity that has the component\<close>

text \<open>
  C5 does not hold of the code: \<open>ComponentPool::Set\<close> never looks for a record of the
  entity, it appends. After \<open>Set<Position>(e, 7)\<close> and \<open>Set<Position>(e, 8)\<close> the pool holds
  two records owned by \<open>e\<close>, and \<open>Remove<Position>(e)\<close> takes only the later one away: the
  earlier one stays in the pool, owned by \<open>e\<close>, while \<open>Has<Position>(e)\<close> is false.
\<close>

theorem C5_Set_twice_leaves_two_records:
  "ComponentManager_Set False ''Position'' e_one 8 cm_position = Done cm_twice \<and>
   map eid (components (componentPools cm_twice ! 0)) = [e_one, e_one] \<and>
   map cvalue (components (componentPools cm_twice ! 0)) = [7, 8] \<and>
   ComponentManager_Remove ''Position'' e_one cm_twice = Done cm_twice_removed \<and>
   map eid (components (componentPools cm_twice_removed ! 0)) = [e_one] \<and>
   map cvalue (components (componentPools cm_twice_removed ! 0)) = [7] \<and>
   ComponentManager_Has ''Position'' cm_twice_removed e_one = Inr False"
  by (simp add: cm_twice_removed_def cm_twice_def cm_position_def em_one_eq e_one_def
      ComponentManager_Set_def RegisterComponentType_def set_at_def mask_set_def
      MAX_COMPONENTS_def Let_def ComponentPool_Set_def ComponentPool_new_def
      ComponentManager_Remove_def in_pool_def ComponentPool_Remove_def
      INVALID_COMP_INDEX_def remove_virtual_def ComponentPool_remove_def size_minus_one_def
      reset_bit_def mask_reset_def bit_set_bit_iff bit_unset_bit_iff ComponentManager_Has_def)

subsection \<open>C2: removal under an iterate lock\<close>

text \<open>
  What holds of \<open>Remove\<close> under the lock: the pool keeps its size, the slot of the entity is
  owned by the null identity afterwards, and its index is the last of the queue.
\<close>

lemma Remove_in_soft_remove_mode:
  assumes "softRemoveMode p"
    and "entIndexToCompIndex p (Index e) = Some i"
    and "i < length (components p)"
    and "i \<noteq> INVALID_COMP_INDEX"
  shows "\<exists>p'. ComponentPool_Remove e p = Done p' \<and> Size p' = Size p \<and>
              eid (components p' ! i) = Id_null \<and>
              softRemoveCompIndexes p' = softRemoveCompIndexes p @ [i] \<and>
              softRemoveMode p' \<and> \<not> HasComponent p' e"
  using assms
  by (simp add: ComponentPool_Remove_def softRemove_def Size_def HasComponent_def)

text \<open>
  C2 does not hold of the code in its second half. The queue holds the positions the
  slots had when they were soft-removed, and each real removal moves the last record
  into the slot it frees; a queued position that was the last one is stale by the time
  it is reached. With three records, the first and the third soft-removed in this
  order, the release first moves the dead third record into slot \<open>0\<close>, and then, for the
  queued position \<open>2\<close>, drops the last slot, which by now holds the live record of the
  second entity. The dead record stays in the pool, the second entity's reverse map
  points past the end, and its \<open>Get\<close> throws.
\<close>

theorem C2_release_drops_a_live_record:
  "map eid (components pool_soft_removed) = [Id_null, e_two, Id_null] \<and>
   softRemoveCompIndexes pool_soft_removed = [0, 2] \<and>
   Size pool_soft_removed = 3 \<and>
   toggleSoftRemove False pool_soft_removed = Done pool_released \<and>
   \<not> softRemoveMode pool_released \<and>
   map eid (components pool_released) = [Id_null] \<and>
   map cvalue (components pool_released) = [30] \<and>
   HasComponent pool_released e_two \<and>
   ComponentPool_Get pool_released e_two = Inl OutOfRange"
  by (simp add: pool_released_def pool_soft_removed_def pool_locked_def pool_three_def
      e_one_def e_two_def e_three_def ComponentPool_Set_def ComponentPool_new_def
      toggleSoftRemove_def ComponentPool_Remove_def INVALID_COMP_INDEX_def softRemove_def
      Id_null_def remove_virtual_def ComponentPool_remove_def size_minus_one_def
      HasComponent_def ComponentPool_Get_def Size_def)

subsection \<open>C10: keyed queries on a type registered as a plain type\<close>

lemma for_each_empty:
  "for_each body EntityCollection_empty em = Some (Done em, [])"
  by (simp add: for_each_def EntityCollection_begin_def Iterator_new_def
      EntityCollection_empty_def Collection_empty_def Collection_begin_def Collection_end_def
      Iterator_eq_def for_loop.simps)

text \<open>
  C10: when the key type is registered and its pool is a plain pool, the keyed queries
  raise nothing: for every key, \<open>EntitiesWith<KeyType, ...>(key)\<close> returns the empty
  collection, over which a loop sees no entity and leaves the manager as it was, and
  \<open>EntityWith(key)\<close> returns the null entity.
\<close>

theorem C10_keyed_query_on_plain_type:
  assumes "compTypeToCompIndex (compMgr em) keyType = Some compIndex"
    and "compIndex < length (componentPools (compMgr em))"
    and "\<not> isKeyed (componentPools (compMgr em) ! compIndex)"
  shows "EntitiesWith_key keyType compTypes key em = Inr (EntityCollection_empty, em) \<and>
         for_each body EntityCollection_empty em = Some (Done em, []) \<and>
         EntityWith keyType key em = Inr Id_null"
  using assms
  by (simp add: EntitiesWith_key_def EntityWith_def for_each_empty)

theorem C10_keyed_query_on_plain_type_witness:
  "EntitiesWith_key ''Position'' [] 5 em_registered = Inr (EntityCollection_empty, em_registered) \<and>
   for_each (\<lambda>e em. Done em) EntityCollection_empty em_registered =
     Some (Done em_registered, []) \<and>
   EntityWith ''Position'' 5 em_registered = Inr Id_null"
proof -
  have h: "compTypeToCompIndex (compMgr em_registered) ''Position'' = Some 0"
    "0 < length (componentPools (compMgr em_registered))"
    "\<not> isKeyed (componentPools (compMgr em_registered) ! 0)"
    by (simp_all add: em_registered_def cm_registered_def em_one_eq RegisterComponentType_def
        Let_def ComponentPool_new_def)
  show ?thesis using C10_keyed_query_on_plain_type [OF h] by simp
qed

subsection \<open>Loops over an entity collection\<close>

text \<open>
  The lemmas of this subsection follow the entity iterator over any collection that \<open>walks\<close>
  a list of entities: \<open>operator++\<close> stops at the next entity with the mask or at the end,
  and the loop hands the body the entities with the mask, in order.
\<close>

lemma filter_drop_skip:
  assumes "\<forall>j. k < j \<and> j < k' \<longrightarrow> \<not> P (xs ! j)" and "k < k'" and "k' \<le> length xs"
  shows "filter P (drop (Suc k) xs) = filter P (drop k' xs)"
  using assms
proof (induction "k' - Suc k" arbitrary: k)
  case 0
  then have "k' = Suc k" by simp
  then show ?case by simp
next
  case (Suc n)
  then have lt: "Suc k < k'" by simp
  have a: "drop (Suc k) xs = xs ! Suc k # drop (Suc (Suc k)) xs"
    using lt Suc.prems(3) by (simp add: Cons_nth_drop_Suc)
  have b: "\<not> P (xs ! Suc k)" using Suc.prems(1) lt by simp
  have "filter P (drop (Suc (Suc k)) xs) = filter P (drop k' xs)"
    using Suc.hyps(1) [of "Suc k"] Suc.hyps(2) Suc.prems lt by auto
  then show ?case using a b by simp
qed

lemma advance_walk:
  assumes w: "walks em c itv xs" and k: "k < length xs"
  shows "\<exists>k'. advance em compMask c (itv k) = Some (Inr (itv k')) \<and>
              k < k' \<and> k' \<le> length xs \<and>
              (k' < length xs \<longrightarrow> has_mask em compMask (xs ! k')) \<and>
              (\<forall>j. k < j \<and> j < k' \<longrightarrow> \<not> has_mask em compMask (xs ! j))"
  using k
proof (induction "length xs - k" arbitrary: k rule: less_induct)
  case less
  have inc: "Iterator_inc (pool_of em c) (itv k) = Inr (itv (Suc k))"
    using w less.prems by (simp add: walks_def)
  show ?case
  proof (cases "Suc k = length xs")
    case True
    have "Iterator_eq (itv (Suc k)) (Collection_end c)"
      using w True by (simp add: walks_def)
    then have "advance em compMask c (itv k) = Some (Inr (itv (Suc k)))"
      by (subst advance.simps) (simp add: inc)
    then show ?thesis using True by auto
  next
    case False
    then have lt: "Suc k < length xs" using less.prems by simp
    have ne: "\<not> Iterator_eq (itv (Suc k)) (Collection_end c)"
      using w lt by (simp add: walks_def)
    have de: "Iterator_deref (pool_of em c) (itv (Suc k)) = Inr (xs ! Suc k)"
      using w lt by (simp add: walks_def)
    have inx: "Index (xs ! Suc k) < length (entCompMasks (compMgr em))"
      using w lt by (simp add: walks_def)
    show ?thesis
    proof (cases "has_mask em compMask (xs ! Suc k)")
      case True
      have "advance em compMask c (itv k) = Some (Inr (itv (Suc k)))"
        using True
        by (subst advance.simps) (simp add: inc ne de inx has_mask_def)
      then show ?thesis using True lt by auto
    next
      case nm: False
      have un: "advance em compMask c (itv k) = advance em compMask c (itv (Suc k))"
        using nm
        by (subst advance.simps) (simp add: inc ne de inx has_mask_def)
      have dec: "length xs - Suc k < length xs - k" using lt by simp
      from less.hyps [OF dec lt] obtain k' where
        r: "advance em compMask c (itv (Suc k)) = Some (Inr (itv k'))"
           "Suc k < k'" "k' \<le> length xs"
           "k' < length xs \<longrightarrow> has_mask em compMask (xs ! k')"
           "\<forall>j. Suc k < j \<and> j < k' \<longrightarrow> \<not> has_mask em compMask (xs ! j)"
        by blast
      have "\<forall>j. k < j \<and> j < k' \<longrightarrow> \<not> has_mask em compMask (xs ! j)"
        using r(5) nm by (metis Suc_lessI)
      then show ?thesis using un r by auto
    qed
  qed
qed

lemma for_loop_walk:
  fixes body :: "'g::len word Id \<Rightarrow> ('g word, 'v) EntityManager \<Rightarrow> ('g word, 'v) EntityManager outcome"
  assumes ec: "ec_compEntColl ec = c" "ec_compMask ec = compMask"
    and J: "\<And>s. J s \<Longrightarrow> walks s c itv xs \<and> (\<forall>e \<in> set xs. has_mask s compMask e = M e)"
    and step: "\<And>e s s'. J s \<Longrightarrow> body e s = Done s' \<Longrightarrow> J s'"
    and start: "J em" "k = length xs \<or> (k < length xs \<and> M (xs ! k))"
  shows "\<exists>out vis. for_loop body ec (itv k) em acc = Some (out, acc @ vis) \<and>
                  (\<exists>rest. filter M (drop k xs) = vis @ rest) \<and>
                  (case out of
                     Done s' \<Rightarrow> vis = filter M (drop k xs) \<and> J s'
                   | Threw err s' \<Rightarrow> \<exists>e s. J s \<and> e \<in> set xs \<and> body e s = Threw err s')"
  using start
proof (induction "length xs - k" arbitrary: k em acc rule: less_induct)
  case less
  note w = J [OF less.prems(1), THEN conjunct1]
  show ?case
  proof (cases "k = length xs")
    case True
    have "Iterator_eq (itv k) (Collection_end c)" using w True by (simp add: walks_def)
    then have "for_loop body ec (itv k) em acc = Some (Done em, acc)"
      by (subst for_loop.simps) (simp add: ec)
    then show ?thesis using True less.prems(1) by simp
  next
    case False
    then have k: "k < length xs" "M (xs ! k)" using less.prems(2) by auto
    have ne: "\<not> Iterator_eq (itv k) (Collection_end c)"
      using w k(1) by (simp add: walks_def)
    have de: "Iterator_deref (pool_of em c) (itv k) = Inr (xs ! k)"
      using w k(1) by (simp add: walks_def)
    have dr: "drop k xs = xs ! k # drop (Suc k) xs"
      using k(1) by (simp add: Cons_nth_drop_Suc)
    have mem: "xs ! k \<in> set xs" using k(1) by simp
    show ?thesis
    proof (cases "body (xs ! k) em")
      case (Threw err em')
      have "for_loop body ec (itv k) em acc = Some (Threw err em', acc @ [xs ! k])"
        by (subst for_loop.simps) (simp add: ec ne de Threw)
      then show ?thesis using dr k(2) Threw less.prems(1) mem by auto
    next
      case (Done em')
      have Jem': "J em'" using step [OF less.prems(1) Done] .
      note f = J [OF Jem']
      from advance_walk [OF f [THEN conjunct1] k(1), of compMask]
      obtain k' where
        a: "advance em' compMask c (itv k) = Some (Inr (itv k'))"
           "k < k'" "k' \<le> length xs" "k' < length xs \<longrightarrow> has_mask em' compMask (xs ! k')"
           "\<forall>j. k < j \<and> j < k' \<longrightarrow> \<not> has_mask em' compMask (xs ! j)"
        by blast
      have m1: "k' = length xs \<or> (k' < length xs \<and> M (xs ! k'))"
        using a(3,4) f by (cases "k' = length xs") auto
      have m2: "\<forall>j. k < j \<and> j < k' \<longrightarrow> \<not> M (xs ! j)"
        using a(3,5) f by auto
      have sk: "filter M (drop (Suc k) xs) = filter M (drop k' xs)"
        using filter_drop_skip [OF m2 a(2) a(3)] .
      have lt: "length xs - k' < length xs - k" using a(2,3) k(1) by simp
      from less.hyps [OF lt Jem' m1, of "acc @ [xs ! k]"]
      obtain out vis where
        r: "for_loop body ec (itv k') em' (acc @ [xs ! k]) = Some (out, (acc @ [xs ! k]) @ vis)"
           "\<exists>rest. filter M (drop k' xs) = vis @ rest"
           "case out of
              Done s' \<Rightarrow> vis = filter M (drop k' xs) \<and> J s'
            | Threw err s' \<Rightarrow> \<exists>e s. J s \<and> e \<in> set xs \<and> body e s = Threw err s'"
        by blast
      have "for_loop body ec (itv k) em acc = Some (out, acc @ (xs ! k # vis))"
        by (subst for_loop.simps) (simp add: ec ne de Done a(1) r(1))
      moreover have "\<exists>rest. filter M (drop k xs) = (xs ! k # vis) @ rest"
        using r(2) dr k(2) sk by auto
      moreover have "case out of
              Done s' \<Rightarrow> xs ! k # vis = filter M (drop k xs) \<and> J s'
            | Threw err s' \<Rightarrow> \<exists>e s. J s \<and> e \<in> set xs \<and> body e s = Threw err s'"
        using r(3) dr k(2) sk by (cases out) auto
      ultimately show ?thesis by blast
    qed
  qed
qed

lemma begin_walk:
  assumes ec: "ec_compEntColl ec = c" "ec_compMask ec = compMask"
    and w: "walks em c itv xs"
  shows "\<exists>k. EntityCollection_begin em ec = Some (Inr (itv k)) \<and>
             (k = length xs \<or> (k < length xs \<and> has_mask em compMask (xs ! k))) \<and>
             filter (has_mask em compMask) (drop k xs) = filter (has_mask em compMask) xs"
proof -
  have b: "Collection_begin (pool_of em c) c = itv 0" using w by (simp add: walks_def)
  show ?thesis
  proof (cases "xs = []")
    case True
    have "Iterator_eq (itv 0) (Collection_end c)" using w True by (simp add: walks_def)
    then have "EntityCollection_begin em ec = Some (Inr (itv 0))"
      by (simp add: EntityCollection_begin_def Iterator_new_def ec b)
    then show ?thesis using True by auto
  next
    case False
    then have pos: "0 < length xs" by simp
    have ne: "\<not> Iterator_eq (itv 0) (Collection_end c)"
      using w pos by (simp add: walks_def)
    have de: "Iterator_deref (pool_of em c) (itv 0) = Inr (xs ! 0)"
      using w pos by (simp add: walks_def)
    have inx: "Index (xs ! 0) < length (entCompMasks (compMgr em))"
      using w pos by (simp add: walks_def)
    show ?thesis
    proof (cases "has_mask em compMask (xs ! 0)")
      case True
      have "EntityCollection_begin em ec = Some (Inr (itv 0))"
        using True
        by (simp add: EntityCollection_begin_def Iterator_new_def ec b ne de inx has_mask_def)
      then show ?thesis using True pos by auto
    next
      case nm: False
      from advance_walk [OF w pos, of compMask]
      obtain k' where
        a: "advance em compMask c (itv 0) = Some (Inr (itv k'))"
           "0 < k'" "k' \<le> length xs" "k' < length xs \<longrightarrow> has_mask em compMask (xs ! k')"
           "\<forall>j. 0 < j \<and> j < k' \<longrightarrow> \<not> has_mask em compMask (xs ! j)"
        by blast
      have "EntityCollection_begin em ec = Some (Inr (itv k'))"
        using nm
        by (simp add: EntityCollection_begin_def Iterator_new_def ec b ne de inx has_mask_def a(1))
      moreover have "filter (has_mask em compMask) (drop k' xs) = filter (has_mask em compMask) xs"
      proof -
        have "xs = xs ! 0 # drop (Suc 0) xs"
          using pos by (metis Cons_nth_drop_Suc drop0)
        then have "filter (has_mask em compMask) xs =
                   filter (has_mask em compMask) (drop (Suc 0) xs)"
          using nm by (metis filter.simps(2))
        also have "\<dots> = filter (has_mask em compMask) (drop k' xs)"
          using filter_drop_skip [OF a(5) a(2) a(3)] .
        finally show ?thesis by simp
      qed
      moreover have "k' = length xs \<or> (k' < length xs \<and> has_mask em compMask (xs ! k'))"
        using a(3,4) by (cases "k' = length xs") auto
      ultimately show ?thesis by blast
    qed
  qed
qed

lemma for_each_walk:
  fixes body :: "'g::len word Id \<Rightarrow> ('g word, 'v) EntityManager \<Rightarrow> ('g word, 'v) EntityManager outcome"
  assumes ec: "ec_compEntColl ec = c" "ec_compMask ec = compMask"
    and J: "\<And>s. J s \<Longrightarrow> walks s c itv xs \<and>
                         (\<forall>e \<in> set xs. has_mask s compMask e = has_mask em compMask e)"
    and step: "\<And>e s s'. J s \<Longrightarrow> body e s = Done s' \<Longrightarrow> J s'"
    and start: "J em"
  shows "\<exists>out vis. for_each body ec em = Some (out, vis) \<and>
                  (\<exists>rest. filter (has_mask em compMask) xs = vis @ rest) \<and>
                  (case out of
                     Done s' \<Rightarrow> vis = filter (has_mask em compMask) xs \<and> J s'
                   | Threw err s' \<Rightarrow> \<exists>e s. J s \<and> e \<in> set xs \<and> body e s = Threw err s')"
proof -
  from begin_walk [OF ec J [OF start, THEN conjunct1]]
  obtain k where k: "EntityCollection_begin em ec = Some (Inr (itv k))"
    "k = length xs \<or> (k < length xs \<and> has_mask em compMask (xs ! k))"
    "filter (has_mask em compMask) (drop k xs) = filter (has_mask em compMask) xs"
    by blast
  have "\<exists>out vis. for_loop body ec (itv k) em [] = Some (out, [] @ vis) \<and>
                  (\<exists>rest. filter (has_mask em compMask) (drop k xs) = vis @ rest) \<and>
                  (case out of
                     Done s' \<Rightarrow> vis = filter (has_mask em compMask) (drop k xs) \<and> J s'
                   | Threw err s' \<Rightarrow> \<exists>e s. J s \<and> e \<in> set xs \<and> body e s = Threw err s')"
  proof (rule for_loop_walk [where M = "has_mask em compMask" and J = J and body = body
        and c = c and compMask = compMask and itv = itv and xs = xs])
    show "ec_compEntColl ec = c" by (rule ec(1))
    show "ec_compMask ec = compMask" by (rule ec(2))
    show "\<And>s. J s \<Longrightarrow> walks s c itv xs \<and>
                    (\<forall>e \<in> set xs. has_mask s compMask e = has_mask em compMask e)"
      by (rule J)
    show "\<And>e s s'. J s \<Longrightarrow> body e s = Done s' \<Longrightarrow> J s'" by (rule step)
    show "J em" by (rule start)
    show "k = length xs \<or> (k < length xs \<and> has_mask em compMask (xs ! k))" by (rule k(2))
  qed
  then obtain out vis where
    r: "for_loop body ec (itv k) em [] = Some (out, [] @ vis)"
       "\<exists>rest. filter (has_mask em compMask) (drop k xs) = vis @ rest"
       "case out of
          Done s' \<Rightarrow> vis = filter (has_mask em compMask) (drop k xs) \<and> J s'
        | Threw err s' \<Rightarrow> \<exists>e s. J s \<and> e \<in> set xs \<and> body e s = Threw err s'"
    by blast
  have "for_each body ec em = Some (out, vis)" using k(1) r(1) by (simp add: for_each_def)
  then show ?thesis using r(2,3) k(3) by (cases out) auto
qed

subsection \<open>The collection over the smallest pool\<close>

lemma end_of_Entities:
  assumes "Size p < 2 ^ 64"
  shows "Collection_end (Entities d p) = array_iterator d (Size p)"
  using assms
  by (auto simp: Collection_end_def Entities_def array_iterator_def size_plus_one_def
      size_minus_one_def)

lemma walks_array:
  assumes c: "coll_pool c = Some d" "coll_indexes c = None"
    and e: "Collection_end c = array_iterator d (length xs)"
    and n: "length xs < 2 ^ 64"
    and d: "d < length (componentPools (compMgr em))"
    and sz: "length xs \<le> Size (componentPools (compMgr em) ! d)"
    and nth: "\<forall>j<length xs. eid (components (componentPools (compMgr em) ! d) ! j) = xs ! j"
    and ix: "\<forall>e \<in> set xs. Index e < length (entCompMasks (compMgr em))"
  shows "walks em c (array_iterator d) xs"
proof -
  define p where "p = componentPools (compMgr em) ! d"
  have po: "pool_of em c = Some p" using d c by (simp add: pool_of_def p_def)
  have b: "Collection_begin (Some p) c = array_iterator d 0"
    using c by (simp add: Collection_begin_def array_iterator_def)
  have inc: "Iterator_inc (Some p) (array_iterator d j) = Inr (array_iterator d (Suc j))"
    if "j < length xs" for j
    using that n sz
    by (simp add: Iterator_inc_def array_iterator_def size_plus_one_def Let_def p_def)
  have de: "Iterator_deref (Some p) (array_iterator d j) = Inr (xs ! j)"
    if "j < length xs" for j
    using that sz nth
    by (simp add: Iterator_deref_def array_iterator_def entityAt_def Size_def p_def)
  have fin: "Iterator_eq (array_iterator d j) (Collection_end c) = (j = length xs)" for j
    by (simp add: e Iterator_eq_def array_iterator_def)
  show ?thesis
    unfolding walks_def po using b inc de fin ix by simp
qed







subsection \<open>C1: the entities a query over two types visits\<close>




subsection \<open>Traversals while the pool grows\<close>

text \<open>
  The collection over a pool ends at the position behind the last record there was when
  it was made, and the keyed collection at the node it appended to the bucket list then.
  As long as the loop's body keeps the records and the nodes in front of that end, the
  loop visits the entities that were there, whatever is appended behind.
\<close>

lemma EntitiesWith_Inr:
  assumes "EntitiesWith compMask em0 = Inr (ec, em)"
  shows "\<exists>d. d < length (componentPools (compMgr em0)) \<and>
             ec = \<lparr>ec_compMask = compMask,
                   ec_compEntColl = Entities d (componentPools (compMgr em0) ! d),
                   ec_iLock = Some d\<rparr> \<and>
             em = em0\<lparr>compMgr := (compMgr em0)
                        \<lparr>componentPools := (componentPools (compMgr em0))
                           [d := (componentPools (compMgr em0) ! d)\<lparr>softRemoveMode := True\<rparr>]\<rparr>\<rparr>"
  using assms
  by (auto simp: EntitiesWith_def in_compMgr_def in_pool_def toggleSoftRemove_def Let_def
           split: sum.splits option.splits if_splits outcome.splits)

lemma for_each_array_snapshot:
  fixes body :: "'g::len word Id \<Rightarrow> ('g word, 'v) EntityManager \<Rightarrow> ('g word, 'v) EntityManager outcome"
  assumes q: "EntitiesWith compMask em0 = Inr (ec, em)"
    and d: "ec_iLock ec = Some d"
    and xs: "xs = map eid (components (componentPools (compMgr em0) ! d))"
    and sz: "length xs < 2 ^ 64"
    and J: "\<And>s. J s \<Longrightarrow> array_snapshot_kept d xs s \<and> masks_kept xs compMask em s"
    and step: "\<And>e s s'. J s \<Longrightarrow> body e s = Done s' \<Longrightarrow> J s'"
    and start: "J em"
  shows "\<exists>out vis. for_each body ec em = Some (out, vis) \<and>
                  (\<exists>rest. filter (has_mask em compMask) xs = vis @ rest) \<and>
                  (is_Done out \<longrightarrow> vis = filter (has_mask em compMask) xs) \<and>
                  (\<forall>e. e \<notin> set xs \<longrightarrow> e \<notin> set vis)"
proof -
  from EntitiesWith_Inr [OF q] d have
    ec: "ec = \<lparr>ec_compMask = compMask,
              ec_compEntColl = Entities d (componentPools (compMgr em0) ! d),
              ec_iLock = Some d\<rparr>"
    by auto
  define c where "c = Entities d (componentPools (compMgr em0) ! d)"
  have len: "length xs = Size (componentPools (compMgr em0) ! d)"
    by (simp add: xs Size_def)
  have c: "coll_pool c = Some d" "coll_indexes c = None"
    by (simp_all add: c_def Entities_def)
  have e: "Collection_end c = array_iterator d (length xs)"
    unfolding c_def len using sz len by (intro end_of_Entities) simp
  have w: "walks s c (array_iterator d) xs \<and>
           (\<forall>e \<in> set xs. has_mask s compMask e = has_mask em compMask e)" if "J s" for s
  proof -
    from J [OF that] have k: "array_snapshot_kept d xs s" and m: "masks_kept xs compMask em s"
      by simp_all
    have "walks s c (array_iterator d) xs"
      using k m by (intro walks_array [OF c e sz]) (simp_all add: array_snapshot_kept_def masks_kept_def)
    then show ?thesis using m by (simp add: masks_kept_def)
  qed
  have "\<exists>out vis. for_each body ec em = Some (out, vis) \<and>
                  (\<exists>rest. filter (has_mask em compMask) xs = vis @ rest) \<and>
                  (case out of
                     Done s' \<Rightarrow> vis = filter (has_mask em compMask) xs \<and> J s'
                   | Threw err s' \<Rightarrow> \<exists>e s. J s \<and> e \<in> set xs \<and> body e s = Threw err s')"
  proof (rule for_each_walk [where J = J and body = body and c = c
        and compMask = compMask and itv = "array_iterator d" and xs = xs])
    show "ec_compEntColl ec = c" by (simp add: ec c_def)
    show "ec_compMask ec = compMask" by (simp add: ec)
    show "\<And>s. J s \<Longrightarrow> walks s c (array_iterator d) xs \<and>
                   (\<forall>e \<in> set xs. has_mask s compMask e = has_mask em compMask e)"
      by (rule w)
    show "\<And>e s s'. J s \<Longrightarrow> body e s = Done s' \<Longrightarrow> J s'" by (rule step)
    show "J em" by (rule start)
  qed
  then obtain out vis where
    r: "for_each body ec em = Some (out, vis)"
       "\<exists>rest. filter (has_mask em compMask) xs = vis @ rest"
       "case out of
          Done s' \<Rightarrow> vis = filter (has_mask em compMask) xs \<and> J s'
        | Threw err s' \<Rightarrow> \<exists>e s. J s \<and> e \<in> set xs \<and> body e s = Threw err s'"
    by blast
  from r(2) obtain rest where "filter (has_mask em compMask) xs = vis @ rest" by blast
  then have "set vis \<subseteq> set (filter (has_mask em compMask) xs)" by simp
  then have sub: "\<forall>e. e \<notin> set xs \<longrightarrow> e \<notin> set vis" by auto
  have "is_Done out \<longrightarrow> vis = filter (has_mask em compMask) xs"
    using r(3) by (cases out) auto
  with r(1,2) sub show ?thesis by blast
qed

lemma node_next_nth:
  assumes "Suc j < length zs" "distinct (map fst (take (Suc j) zs))"
  shows "node_next (fst (zs ! j)) zs = Some (fst (zs ! Suc j))"
  using assms
proof (induction zs arbitrary: j)
  case Nil
  then show ?case by simp
next
  case (Cons nd ns)
  show ?case
  proof (cases j)
    case 0
    with Cons.prems show ?thesis by (cases ns) simp_all
  next
    case (Suc j')
    have "map fst (take (Suc j') ns) ! j' = fst (ns ! j')" using Cons.prems Suc by simp
    moreover have "j' < length (map fst (take (Suc j') ns))" using Cons.prems Suc by simp
    ultimately have m: "fst (ns ! j') \<in> set (map fst (take (Suc j') ns))" by (metis nth_mem)
    have "distinct (fst nd # map fst (take (Suc j') ns))" using Cons.prems(2) Suc by simp
    then have "fst nd \<notin> set (map fst (take (Suc j') ns))" by simp
    with m have ne: "fst nd \<noteq> fst (ns ! j')" by metis
    have "node_next (fst (ns ! j')) ns = Some (fst (ns ! Suc j'))"
      using Cons.prems Suc by (intro Cons.IH) simp_all
    then show ?thesis using ne Suc by simp
  qed
qed

lemma node_value_nth:
  assumes "j < length zs" "distinct (map fst (take (Suc j) zs))"
  shows "node_value (fst (zs ! j)) zs = Some (snd (zs ! j))"
  using assms
proof (induction zs arbitrary: j)
  case Nil
  then show ?case by simp
next
  case (Cons nd ns)
  show ?case
  proof (cases j)
    case 0
    then show ?thesis by (simp add: node_value_def)
  next
    case (Suc j')
    have "map fst (take (Suc j') ns) ! j' = fst (ns ! j')" using Cons.prems Suc by simp
    moreover have "j' < length (map fst (take (Suc j') ns))" using Cons.prems Suc by simp
    ultimately have m: "fst (ns ! j') \<in> set (map fst (take (Suc j') ns))" by (metis nth_mem)
    have "distinct (fst nd # map fst (take (Suc j') ns))" using Cons.prems(2) Suc by simp
    then have "fst nd \<notin> set (map fst (take (Suc j') ns))" by simp
    with m have ne: "fst nd \<noteq> fst (ns ! j')" by metis
    have "node_value (fst (ns ! j')) ns = Some (snd (ns ! j'))"
      using Cons.prems Suc by (intro Cons.IH) simp_all
    then show ?thesis using ne Suc by (simp add: node_value_def)
  qed
qed

lemma walks_keyed:
  assumes c: "coll_pool c = Some d" "coll_indexes c = Some l" "coll_endIter c = Some (fst (last zs))"
    and len: "length zs = Suc (length xs)"
    and dist: "distinct (map fst zs)"
    and val: "\<forall>j<length xs. snd (zs ! j) \<noteq> INVALID_COMP_INDEX"
    and k: "bucket_snapshot_kept d l zs xs s"
    and ix: "\<forall>e \<in> set xs. Index e < length (entCompMasks (compMgr s))"
  shows "walks s c (keyed_iterator d l zs) xs"
proof -
  define p where "p = componentPools (compMgr s) ! d"
  from k obtain extra where ex: "the_list p l = zs @ extra"
    and d: "d < length (componentPools (compMgr s))"
    and rec: "\<forall>j<length xs. snd (zs ! j) < Size p \<and> eid (components p ! snd (zs ! j)) = xs ! j"
    by (auto simp: bucket_snapshot_kept_def p_def)
  have po: "pool_of s c = Some p" using d c by (simp add: pool_of_def p_def)
  have ne: "zs \<noteq> []" using len by auto
  have dt: "distinct (map fst (take (Suc j) (zs @ extra)))" if "j < length zs" for j
  proof -
    have eq: "take (Suc j) (zs @ extra) = take (Suc j) zs" using that by simp
    have "distinct (take (Suc j) (map fst zs))" using dist by (rule distinct_take)
    then have d1: "distinct (map fst (take (Suc j) zs))" by (simp add: take_map)
    show ?thesis unfolding eq by (rule d1)
  qed
  have nth: "(zs @ extra) ! j = zs ! j" if "j < length zs" for j
    using that by (simp add: nth_append)
  have b: "Collection_begin (Some p) c = keyed_iterator d l zs 0"
    using c ne ex
    by (cases zs) (simp_all add: Collection_begin_def keyed_iterator_def node_begin_def)
  have inc: "Iterator_inc (Some p) (keyed_iterator d l zs j) = Inr (keyed_iterator d l zs (Suc j))"
    if "j < length xs" for j
  proof -
    have "node_next (fst ((zs @ extra) ! j)) (zs @ extra) = Some (fst ((zs @ extra) ! Suc j))"
      using that len dt [of j] by (intro node_next_nth) simp_all
    then have "node_next (fst (zs ! j)) (the_list p l) = Some (fst (zs ! Suc j))"
      using that len nth [of j] nth [of "Suc j"] by (simp add: ex)
    then show ?thesis by (simp add: Iterator_inc_def keyed_iterator_def)
  qed
  have de: "Iterator_deref (Some p) (keyed_iterator d l zs j) = Inr (xs ! j)"
    if "j < length xs" for j
  proof -
    have "node_value (fst ((zs @ extra) ! j)) (zs @ extra) = Some (snd ((zs @ extra) ! j))"
      using that len dt [of j] by (intro node_value_nth) simp_all
    then have "node_value (fst (zs ! j)) (the_list p l) = Some (snd (zs ! j))"
      using that len nth [of j] by (simp add: ex)
    then show ?thesis
      using that val rec
      by (simp add: Iterator_deref_def keyed_iterator_def entityAt_def Size_def)
  qed
  have fin: "Iterator_eq (keyed_iterator d l zs j) (Collection_end c) = (j = length xs)"
    if "j \<le> length xs" for j
  proof -
    have l: "last zs = zs ! length xs" using len ne by (simp add: last_conv_nth)
    have "(fst (zs ! j) = fst (zs ! length xs)) = (j = length xs)"
      using dist that len
      by (metis length_map lessI less_Suc_eq_le nth_eq_iff_index_eq nth_map)
    then show ?thesis
      using c l by (simp add: Iterator_eq_def keyed_iterator_def Collection_end_def)
  qed
  show ?thesis
    unfolding walks_def po using b inc de fin ix by simp
qed

lemma visits_snapshotI:
  assumes "result = Some (out, vis)"
    and "\<exists>rest. filter M xs = vis @ rest"
    and "case out of Done s' \<Rightarrow> vis = filter M xs \<and> J s' | Threw err s' \<Rightarrow> Q err s'"
  shows "visits_snapshot result M xs"
proof -
  from assms(2) obtain rest where "filter M xs = vis @ rest" by blast
  then have "set vis \<subseteq> set (filter M xs)" by simp
  then have sub: "\<forall>e. e \<notin> set xs \<longrightarrow> e \<notin> set vis" by auto
  have "is_Done out \<longrightarrow> vis = filter M xs" using assms(3) by (cases out) auto
  with assms(1,2) sub show ?thesis unfolding visits_snapshot_def by blast
qed

lemma EntitiesWith_key_Inr:
  assumes q: "EntitiesWith_key keyType compTypes key em0 = Inr (ec, em)"
    and K: "compTypeToCompIndex (compMgr em0) keyType = Some d"
    and keyed: "isKeyed (componentPools (compMgr em0) ! d)"
    and b: "compKeyToCompIndex (componentPools (compMgr em0) ! d) key = Some l"
  shows "ec_compEntColl ec =
           \<lparr>coll_pool = Some d, coll_indexes = Some l,
            coll_endIter = Some (fresh (componentPools (compMgr em0) ! d)),
            coll_lastCompIndex = 0\<rparr> \<and>
         d < length (componentPools (compMgr em)) \<and>
         the_list (componentPools (compMgr em) ! d) l =
           the_list (componentPools (compMgr em0) ! d) l @
             [(fresh (componentPools (compMgr em0) ! d), INVALID_COMP_INDEX)] \<and>
         components (componentPools (compMgr em) ! d) =
           components (componentPools (compMgr em0) ! d) \<and>
         entCompMasks (compMgr em) = entCompMasks (compMgr em0)"
  using assms
  by (auto simp: EntitiesWith_key_def in_compMgr_def in_pool_def toggleSoftRemove_def Let_def
           KeyedEntities_def Collection_keyed_def the_list_def
           split: sum.splits option.splits if_splits outcome.splits prod.splits)

lemma for_each_bucket_snapshot:
  fixes body :: "'g::len word Id \<Rightarrow> ('g word, 'v) EntityManager \<Rightarrow> ('g word, 'v) EntityManager outcome"
  assumes q: "EntitiesWith_key keyType compTypes key em0 = Inr (ec, em)"
    and K: "compTypeToCompIndex (compMgr em0) keyType = Some d"
    and keyed: "isKeyed (componentPools (compMgr em0) ! d)"
    and b: "compKeyToCompIndex (componentPools (compMgr em0) ! d) key = Some l"
    and ok: "bucket_nodes_ok (componentPools (compMgr em0) ! d) l"
    and zs: "zs = the_list (componentPools (compMgr em0) ! d) l @
                    [(fresh (componentPools (compMgr em0) ! d), INVALID_COMP_INDEX)]"
    and xs: "xs = map (\<lambda>nd. eid (components (componentPools (compMgr em0) ! d) ! snd nd))
                    (the_list (componentPools (compMgr em0) ! d) l)"
    and J: "\<And>s. J s \<Longrightarrow> bucket_snapshot_kept d l zs xs s \<and> masks_kept xs (ec_compMask ec) em s"
    and step: "\<And>e s s'. J s \<Longrightarrow> body e s = Done s' \<Longrightarrow> J s'"
    and start: "J em"
  shows "visits_snapshot (for_each body ec em) (has_mask em (ec_compMask ec)) xs"
proof -
  define p0 where "p0 = componentPools (compMgr em0) ! d"
  define c where "c = ec_compEntColl ec"
  note f = EntitiesWith_key_Inr [OF q K keyed b, folded p0_def]
  have c: "coll_pool c = Some d" "coll_indexes c = Some l" "coll_endIter c = Some (fst (last zs))"
    using f by (simp_all add: c_def zs p0_def)
  have len: "length zs = Suc (length xs)" by (simp add: zs xs)
  have dist: "distinct (map fst zs)"
    using ok by (auto simp: zs bucket_nodes_ok_def node_ids_def)
  have val: "\<forall>j<length xs. snd (zs ! j) \<noteq> INVALID_COMP_INDEX"
    using ok by (auto simp: zs xs bucket_nodes_ok_def nth_append)
  have w: "walks s c (keyed_iterator d l zs) xs \<and>
           (\<forall>e \<in> set xs. has_mask s (ec_compMask ec) e = has_mask em (ec_compMask ec) e)"
    if "J s" for s
  proof -
    from J [OF that] have k: "bucket_snapshot_kept d l zs xs s"
      and m: "masks_kept xs (ec_compMask ec) em s"
      by simp_all
    have "walks s c (keyed_iterator d l zs) xs"
      using m by (intro walks_keyed [OF c len dist val k]) (simp add: masks_kept_def)
    then show ?thesis using m by (simp add: masks_kept_def)
  qed
  have "\<exists>out vis. for_each body ec em = Some (out, vis) \<and>
                  (\<exists>rest. filter (has_mask em (ec_compMask ec)) xs = vis @ rest) \<and>
                  (case out of
                     Done s' \<Rightarrow> vis = filter (has_mask em (ec_compMask ec)) xs \<and> J s'
                   | Threw err s' \<Rightarrow> \<exists>e s. J s \<and> e \<in> set xs \<and> body e s = Threw err s')"
  proof (rule for_each_walk [where J = J and body = body and c = c
        and compMask = "ec_compMask ec" and itv = "keyed_iterator d l zs" and xs = xs])
    show "ec_compEntColl ec = c" by (simp add: c_def)
    show "ec_compMask ec = ec_compMask ec" by simp
    show "\<And>s. J s \<Longrightarrow> walks s c (keyed_iterator d l zs) xs \<and>
                   (\<forall>e \<in> set xs. has_mask s (ec_compMask ec) e = has_mask em (ec_compMask ec) e)"
      by (rule w)
    show "\<And>e s s'. J s \<Longrightarrow> body e s = Done s' \<Longrightarrow> J s'" by (rule step)
    show "J em" by (rule start)
  qed
  then obtain out vis where
    r: "for_each body ec em = Some (out, vis)"
       "\<exists>rest. filter (has_mask em (ec_compMask ec)) xs = vis @ rest"
       "case out of
          Done s' \<Rightarrow> vis = filter (has_mask em (ec_compMask ec)) xs \<and> J s'
        | Threw err s' \<Rightarrow> \<exists>e s. J s \<and> e \<in> set xs \<and> body e s = Threw err s'"
    by blast
  then show ?thesis by (rule visits_snapshotI)
qed

lemma EntitiesWith_types_Inr:
  assumes "EntitiesWith_types compTypes em0 = Inr (ec, em)"
  shows "\<exists>compMask. CreateMask (compMgr em0) compTypes = Inr compMask \<and>
                    EntitiesWith compMask em0 = Inr (ec, em)"
  using assms by (auto simp: EntitiesWith_types_def split: sum.splits)


lemma create_with_Done:
  assumes f: "freeEntityIndexes s = []"
    and t: "compTypeToCompIndex (compMgr s) T = Some d"
    and c: "create_with asKey T v e s = Done s'"
  shows "\<exists>cm. set_at asKey d \<lparr>Index = length (entCompMasks (compMgr s)), Generation = 0\<rparr> v
                 ((compMgr s)\<lparr>entCompMasks := entCompMasks (compMgr s) @ [0]\<rparr>) = Done cm \<and>
              compMgr s' = cm \<and> freeEntityIndexes s' = []"
  using assms
  by (auto simp: create_with_def NewEntity_def Let_def in_compMgr_def ComponentManager_Set_def
           split: if_splits outcome.splits)

lemma em_alone_eq:
  "em_alone =
     \<lparr>entIndexToGen = [0, 0], indexIsAlive = [False, True], freeEntityIndexes = [],
      compMgr =
        \<lparr>compTypeToCompIndex = [''Position'' \<mapsto> 0],
         componentPools =
           [\<lparr>components = [\<lparr>eid = ent 1, cvalue = 0, keyedList = None, keyedIterator = 0\<rparr>],
             entIndexToCompIndex = [1 \<mapsto> 0], softRemoveMode = False,
             softRemoveCompIndexes = [], isKeyed = False, compKeyToCompIndex = Map.empty,
             lists = Map.empty, fresh = 0\<rparr>],
         entCompMasks = [0, 1]\<rparr>\<rparr>"
  by (simp add: em_alone_def NewEntity_def EntityManager_new_def give_def ent_def
      in_compMgr_def ComponentManager_Set_def RegisterComponentType_def set_at_def
      mask_set_def MAX_COMPONENTS_def Let_def ComponentPool_Set_def ComponentPool_new_def)

lemma em_keyed_eq:
  "em_keyed =
     \<lparr>entIndexToGen = [0, 0], indexIsAlive = [False, True], freeEntityIndexes = [],
      compMgr =
        \<lparr>compTypeToCompIndex = [''Position'' \<mapsto> 0],
         componentPools =
           [\<lparr>components = [\<lparr>eid = ent 1, cvalue = 12, keyedList = Some 0, keyedIterator = 1\<rparr>],
             entIndexToCompIndex = [1 \<mapsto> 0], softRemoveMode = False,
             softRemoveCompIndexes = [], isKeyed = True, compKeyToCompIndex = [12 \<mapsto> 0],
             lists = [0 \<mapsto> [(1, 0)]], fresh = 2\<rparr>],
         entCompMasks = [0, 1]\<rparr>\<rparr>"
  by (simp add: em_keyed_def NewEntity_def EntityManager_new_def ent_def
      in_compMgr_def ComponentManager_Set_def RegisterComponentType_def set_at_def
      mask_set_def MAX_COMPONENTS_def Let_def KeyedComponentPool_Set_def ComponentPool_new_def)

lemma query_alone_eq:
  "EntitiesWith_types [''Position''] em_alone = Inr query_alone \<and>
   ec_iLock (fst query_alone) = Some 0 \<and>
   CreateMask (compMgr em_alone) [''Position''] = Inr 1 \<and>
   freeEntityIndexes (snd query_alone) = [] \<and>
   compTypeToCompIndex (compMgr (snd query_alone)) ''Position'' = Some 0 \<and>
   componentPools (compMgr (snd query_alone)) =
     [(componentPools (compMgr em_alone) ! 0)\<lparr>softRemoveMode := True\<rparr>] \<and>
   entCompMasks (compMgr (snd query_alone)) = [0, 1]"
  by (simp add: query_alone_def em_alone_eq EntitiesWith_types_def CreateMask_def mask_set_def
      MAX_COMPONENTS_def EntitiesWith_def ComponentTypeCount_def mask_test_def Let_def
      in_compMgr_def in_pool_def toggleSoftRemove_def Size_def)

lemma query_keyed_eq:
  "EntitiesWith_key ''Position'' [] 12 em_keyed = Inr query_keyed \<and>
   ec_compMask (fst query_keyed) = 1 \<and>
   freeEntityIndexes (snd query_keyed) = [] \<and>
   compTypeToCompIndex (compMgr (snd query_keyed)) ''Position'' = Some 0 \<and>
   length (componentPools (compMgr (snd query_keyed))) = 1 \<and>
   isKeyed (componentPools (compMgr (snd query_keyed)) ! 0) \<and>
   compKeyToCompIndex (componentPools (compMgr (snd query_keyed)) ! 0) 12 = Some 0 \<and>
   lists (componentPools (compMgr (snd query_keyed)) ! 0) 0 = Some [(1, 0), (2, INVALID_COMP_INDEX)] \<and>
   components (componentPools (compMgr (snd query_keyed)) ! 0) =
     [\<lparr>eid = ent 1, cvalue = 12, keyedList = Some 0, keyedIterator = 1\<rparr>] \<and>
   entCompMasks (compMgr (snd query_keyed)) = [0, 1]"
  by (simp add: query_keyed_def em_keyed_eq EntitiesWith_key_def CreateMask_def mask_set_def
      MAX_COMPONENTS_def Let_def in_compMgr_def in_pool_def toggleSoftRemove_def
      KeyedEntities_def Collection_keyed_def the_list_def)

lemma create_keeps_array:
  fixes s :: "('g::len word, 'v) EntityManager"
  assumes f: "freeEntityIndexes s = []"
    and t: "compTypeToCompIndex (compMgr s) T = Some d"
    and k: "array_snapshot_kept d xs s"
    and m: "masks_kept xs compMask em s"
    and c: "create_with False T v e s = Done s'"
  shows "freeEntityIndexes s' = [] \<and> compTypeToCompIndex (compMgr s') T = Some d \<and>
         array_snapshot_kept d xs s' \<and> masks_kept xs compMask em s'"
proof -
  define n where "n = length (entCompMasks (compMgr s))"
  define e' :: "'g word Id" where "e' = \<lparr>Index = n, Generation = 0\<rparr>"
  from create_with_Done [OF f t c] have
    sa: "set_at False d e' v ((compMgr s)\<lparr>entCompMasks := entCompMasks (compMgr s) @ [0]\<rparr>) =
           Done (compMgr s')"
    and f': "freeEntityIndexes s' = []"
    by (auto simp: e'_def n_def)
  from k have dl: "d < length (componentPools (compMgr s))" by (simp add: array_snapshot_kept_def)
  from sa dl have cm: "compMgr s' =
      (compMgr s)\<lparr>entCompMasks := (entCompMasks (compMgr s) @ [0])[n := set_bit d 0],
                  componentPools := (componentPools (compMgr s))
                     [d := ComponentPool_Set e' v (componentPools (compMgr s) ! d)]\<rparr>"
    by (auto simp: set_at_def mask_set_def Let_def e'_def n_def split: if_splits)
  have t': "compTypeToCompIndex (compMgr s') T = Some d" using t by (simp add: cm)
  have k': "array_snapshot_kept d xs s'"
    using k dl
    by (auto simp: array_snapshot_kept_def cm ComponentPool_Set_def Size_def Let_def nth_append)
  have m': "masks_kept xs compMask em s'"
    using m
    by (auto simp: masks_kept_def cm has_mask_def n_def nth_append)
  show ?thesis using f' t' k' m' by simp
qed

lemma create_keeps_bucket:
  fixes s :: "('g::len word, 'v) EntityManager"
  assumes f: "freeEntityIndexes s = []"
    and t: "compTypeToCompIndex (compMgr s) T = Some d"
    and ky: "isKeyed (componentPools (compMgr s) ! d)"
    and b: "compKeyToCompIndex (componentPools (compMgr s) ! d) key = Some l"
    and k: "bucket_snapshot_kept d l zs xs s"
    and z: "zs \<noteq> []"
    and m: "masks_kept xs compMask em s"
    and c: "create_with True T key e s = Done s'"
  shows "freeEntityIndexes s' = [] \<and> compTypeToCompIndex (compMgr s') T = Some d \<and>
         isKeyed (componentPools (compMgr s') ! d) \<and>
         compKeyToCompIndex (componentPools (compMgr s') ! d) key = Some l \<and>
         bucket_snapshot_kept d l zs xs s' \<and> masks_kept xs compMask em s'"
proof -
  define n where "n = length (entCompMasks (compMgr s))"
  define e' :: "'g word Id" where "e' = \<lparr>Index = n, Generation = 0\<rparr>"
  define p where "p = componentPools (compMgr s) ! d"
  from create_with_Done [OF f t c] have
    sa: "set_at True d e' key ((compMgr s)\<lparr>entCompMasks := entCompMasks (compMgr s) @ [0]\<rparr>) =
           Done (compMgr s')"
    and f': "freeEntityIndexes s' = []"
    by (auto simp: e'_def n_def)
  from k obtain extra where dl: "d < length (componentPools (compMgr s))"
    and ex: "the_list p l = zs @ extra"
    and rec: "\<forall>j<length xs. snd (zs ! j) < Size p \<and> eid (components p ! snd (zs ! j)) = xs ! j"
    by (auto simp: bucket_snapshot_kept_def p_def)
  from ex z obtain ns where ns: "lists p l = Some ns" "ns = zs @ extra"
    by (cases "lists p l") (auto simp: the_list_def)
  define p' where "p' = p\<lparr>components := components p @
                              [\<lparr>eid = e', cvalue = key, keyedList = Some l, keyedIterator = fresh p\<rparr>],
                          entIndexToCompIndex := (entIndexToCompIndex p)(Index e' \<mapsto> length (components p)),
                          lists := (lists p)(l \<mapsto> ns @ [(fresh p, length (components p))]),
                          fresh := fresh p + 1\<rparr>"
  have ks: "KeyedComponentPool_Set e' key p = Done p'"
    using b ns by (simp add: KeyedComponentPool_Set_def Let_def p_def p'_def)
  from sa dl ky ks have cm: "compMgr s' =
      (compMgr s)\<lparr>entCompMasks := (entCompMasks (compMgr s) @ [0])[n := set_bit d 0],
                  componentPools := (componentPools (compMgr s))[d := p']\<rparr>"
    by (auto simp: set_at_def mask_set_def Let_def e'_def n_def p_def split: if_splits)
  have t': "compTypeToCompIndex (compMgr s') T = Some d" using t by (simp add: cm)
  have ky': "isKeyed (componentPools (compMgr s') ! d)"
    using ky dl by (simp add: cm p'_def p_def)
  have b': "compKeyToCompIndex (componentPools (compMgr s') ! d) key = Some l"
    using b dl by (simp add: cm p'_def p_def)
  have "the_list p' l = zs @ (extra @ [(fresh p, length (components p))])"
    using ns by (simp add: the_list_def p'_def)
  moreover have "\<forall>j<length xs. snd (zs ! j) < Size p' \<and>
                   eid (components p' ! snd (zs ! j)) = xs ! j"
    using rec by (auto simp: p'_def Size_def nth_append)
  ultimately have k': "bucket_snapshot_kept d l zs xs s'"
    using dl unfolding bucket_snapshot_kept_def by (auto simp: cm)
  have m': "masks_kept xs compMask em s'"
    using m
    by (auto simp: masks_kept_def cm has_mask_def n_def nth_append)
  show ?thesis using f' t' ky' b' k' m' by simp
qed

subsection \<open>C3: entities created during a traversal\<close>

text \<open>
  C3: take a traversal started by \<open>EntitiesWith\<close>, in its mask form or its template form
  (first half) or in its keyed form (second half), and let \<open>xs\<close> be the owners of the
  records of the driving pool, or \<open>ys\<close> those of the records in the key's bucket, at the
  moment the collection is made. Whatever the loop's body does, if it leaves those
  records and the masks of their owners as they were (the invariant \<open>J\<close>, which creating
  entities and setting their components keeps: \<open>create_keeps_array\<close>,
  \<open>create_keeps_bucket\<close>), then the loop returns, and it visits only entities among
  \<open>xs\<close> or \<open>ys\<close>; the records appended since, with the entities created since, are
  never reached.
\<close>

theorem C3_entities_created_during_traversal:
  fixes body :: "'g::len word Id \<Rightarrow> ('g word, 'v) EntityManager \<Rightarrow> ('g word, 'v) EntityManager outcome"
  assumes step: "\<And>e s s'. J s \<Longrightarrow> body e s = Done s' \<Longrightarrow> J s'" and start: "J em"
  shows "((EntitiesWith compMask em0 = Inr (ec, em) \<or>
           CreateMask (compMgr em0) compTypes = Inr compMask \<and>
           EntitiesWith_types compTypes em0 = Inr (ec, em)) \<and>
          ec_iLock ec = Some d \<and>
          xs = map eid (components (componentPools (compMgr em0) ! d)) \<and>
          length xs < 2 ^ 64 \<and>
          (\<forall>s. J s \<longrightarrow> array_snapshot_kept d xs s \<and> masks_kept xs compMask em s)
          \<longrightarrow> visits_snapshot (for_each body ec em) (has_mask em compMask) xs) \<and>
         (EntitiesWith_key keyType compTypes key em0 = Inr (ec, em) \<and>
          compTypeToCompIndex (compMgr em0) keyType = Some d \<and>
          isKeyed (componentPools (compMgr em0) ! d) \<and>
          compKeyToCompIndex (componentPools (compMgr em0) ! d) key = Some l \<and>
          bucket_nodes_ok (componentPools (compMgr em0) ! d) l \<and>
          zs = the_list (componentPools (compMgr em0) ! d) l @
                 [(fresh (componentPools (compMgr em0) ! d), INVALID_COMP_INDEX)] \<and>
          ys = map (\<lambda>nd. eid (components (componentPools (compMgr em0) ! d) ! snd nd))
                 (the_list (componentPools (compMgr em0) ! d) l) \<and>
          (\<forall>s. J s \<longrightarrow> bucket_snapshot_kept d l zs ys s \<and> masks_kept ys (ec_compMask ec) em s)
          \<longrightarrow> visits_snapshot (for_each body ec em) (has_mask em (ec_compMask ec)) ys)"
proof (intro conjI impI)
  assume a: "(EntitiesWith compMask em0 = Inr (ec, em) \<or>
           CreateMask (compMgr em0) compTypes = Inr compMask \<and>
           EntitiesWith_types compTypes em0 = Inr (ec, em)) \<and>
          ec_iLock ec = Some d \<and>
          xs = map eid (components (componentPools (compMgr em0) ! d)) \<and>
          length xs < 2 ^ 64 \<and>
          (\<forall>s. J s \<longrightarrow> array_snapshot_kept d xs s \<and> masks_kept xs compMask em s)"
  then have q: "EntitiesWith compMask em0 = Inr (ec, em)"
    using EntitiesWith_types_Inr [of compTypes em0 ec em] by auto
  have J: "\<And>s. J s \<Longrightarrow> array_snapshot_kept d xs s \<and> masks_kept xs compMask em s"
    using a by blast
  from a have d: "ec_iLock ec = Some d"
    and xs: "xs = map eid (components (componentPools (compMgr em0) ! d))"
    and sz: "length xs < 2 ^ 64" by blast+
  have "\<exists>out vis. for_each body ec em = Some (out, vis) \<and>
                  (\<exists>rest. filter (has_mask em compMask) xs = vis @ rest) \<and>
                  (is_Done out \<longrightarrow> vis = filter (has_mask em compMask) xs) \<and>
                  (\<forall>e. e \<notin> set xs \<longrightarrow> e \<notin> set vis)"
  proof (rule for_each_array_snapshot [where J = J and body = body and d = d and ?em0.0 = em0])
    show "EntitiesWith compMask em0 = Inr (ec, em)" by (rule q)
    show "ec_iLock ec = Some d" by (rule d)
    show "xs = map eid (components (componentPools (compMgr em0) ! d))" by (rule xs)
    show "length xs < 2 ^ 64" by (rule sz)
    show "\<And>s. J s \<Longrightarrow> array_snapshot_kept d xs s \<and> masks_kept xs compMask em s" by (rule J)
    show "\<And>e s s'. J s \<Longrightarrow> body e s = Done s' \<Longrightarrow> J s'" by (rule step)
    show "J em" by (rule start)
  qed
  then show "visits_snapshot (for_each body ec em) (has_mask em compMask) xs"
    unfolding visits_snapshot_def .
next
  assume a: "EntitiesWith_key keyType compTypes key em0 = Inr (ec, em) \<and>
          compTypeToCompIndex (compMgr em0) keyType = Some d \<and>
          isKeyed (componentPools (compMgr em0) ! d) \<and>
          compKeyToCompIndex (componentPools (compMgr em0) ! d) key = Some l \<and>
          bucket_nodes_ok (componentPools (compMgr em0) ! d) l \<and>
          zs = the_list (componentPools (compMgr em0) ! d) l @
                 [(fresh (componentPools (compMgr em0) ! d), INVALID_COMP_INDEX)] \<and>
          ys = map (\<lambda>nd. eid (components (componentPools (compMgr em0) ! d) ! snd nd))
                 (the_list (componentPools (compMgr em0) ! d) l) \<and>
          (\<forall>s. J s \<longrightarrow> bucket_snapshot_kept d l zs ys s \<and> masks_kept ys (ec_compMask ec) em s)"
  have J: "\<And>s. J s \<Longrightarrow> bucket_snapshot_kept d l zs ys s \<and> masks_kept ys (ec_compMask ec) em s"
    using a by blast
  show "visits_snapshot (for_each body ec em) (has_mask em (ec_compMask ec)) ys"
  proof (rule for_each_bucket_snapshot [where J = J and body = body and d = d and l = l
        and zs = zs and ?em0.0 = em0 and keyType = keyType and compTypes = compTypes
        and key = key])
    show "EntitiesWith_key keyType compTypes key em0 = Inr (ec, em)" using a by blast
    show "compTypeToCompIndex (compMgr em0) keyType = Some d" using a by blast
    show "isKeyed (componentPools (compMgr em0) ! d)" using a by blast
    show "compKeyToCompIndex (componentPools (compMgr em0) ! d) key = Some l" using a by blast
    show "bucket_nodes_ok (componentPools (compMgr em0) ! d) l" using a by blast
    show "zs = the_list (componentPools (compMgr em0) ! d) l @
                 [(fresh (componentPools (compMgr em0) ! d), INVALID_COMP_INDEX)]"
      using a by blast
    show "ys = map (\<lambda>nd. eid (components (componentPools (compMgr em0) ! d) ! snd nd))
                 (the_list (componentPools (compMgr em0) ! d) l)" using a by blast
    show "\<And>s. J s \<Longrightarrow> bucket_snapshot_kept d l zs ys s \<and> masks_kept ys (ec_compMask ec) em s"
      by (rule J)
    show "\<And>e s s'. J s \<Longrightarrow> body e s = Done s' \<Longrightarrow> J s'" by (rule step)
    show "J em" by (rule start)
  qed
qed


theorem C3_entities_created_during_traversal_witness:
  "(\<exists>out vis. for_each (create_with False ''Position'' 0) (fst query_alone) (snd query_alone) =
                Some (out, vis) \<and> ent 2 \<notin> set vis) \<and>
   (\<exists>out vis. for_each (create_with True ''Position'' 12) (fst query_keyed) (snd query_keyed) =
                Some (out, vis) \<and> ent 2 \<notin> set vis)"
proof
  define J :: "(16 word, nat) EntityManager \<Rightarrow> bool" where
    "J = (\<lambda>s. freeEntityIndexes s = [] \<and> compTypeToCompIndex (compMgr s) ''Position'' = Some 0 \<and>
              array_snapshot_kept 0 [ent 1] s \<and> masks_kept [ent 1] 1 (snd query_alone) s)"
  have step: "J s'" if "J s" "create_with False ''Position'' 0 e s = Done s'" for e s s'
    using that create_keeps_array [where s = s and s' = s' and e = e and T = "''Position''"
        and d = 0 and xs = "[ent 1]" and compMask = 1 and em = "snd query_alone" and v = 0]
    unfolding J_def by simp
  have start: "J (snd query_alone)"
    using query_alone_eq
    by (simp add: J_def array_snapshot_kept_def masks_kept_def em_alone_eq Size_def ent_def)
  have xs: "[ent 1] = map eid (components (componentPools (compMgr em_alone) ! 0))"
    by (simp add: em_alone_eq)
  have q: "EntitiesWith_types [''Position''] em_alone = Inr (fst query_alone, snd query_alone)"
    using query_alone_eq by simp
  have kept: "\<forall>s. J s \<longrightarrow> array_snapshot_kept 0 [ent 1] s \<and>
                          masks_kept [ent 1] 1 (snd query_alone) s"
    by (simp add: J_def)
  have "visits_snapshot
          (for_each (create_with False ''Position'' 0) (fst query_alone) (snd query_alone))
          (has_mask (snd query_alone) 1) [ent 1]"
  proof (rule C3_entities_created_during_traversal [where J = J and body = "create_with False ''Position'' 0"
        and em = "snd query_alone" and ec = "fst query_alone" and ?em0.0 = em_alone
        and compMask = 1 and d = 0 and xs = "[ent 1]" and compTypes = "[''Position'']",
        THEN conjunct1, rule_format])
    show "\<And>e s s'. J s \<Longrightarrow> create_with False ''Position'' 0 e s = Done s' \<Longrightarrow> J s'"
      by (rule step)
    show "J (snd query_alone)" by (rule start)
    show "(EntitiesWith 1 em_alone = Inr (fst query_alone, snd query_alone) \<or>
           CreateMask (compMgr em_alone) [''Position''] = Inr 1 \<and>
           EntitiesWith_types [''Position''] em_alone = Inr (fst query_alone, snd query_alone)) \<and>
          ec_iLock (fst query_alone) = Some 0 \<and>
          [ent 1] = map eid (components (componentPools (compMgr em_alone) ! 0)) \<and>
          length [ent 1 :: 16 word Id] < 2 ^ 64 \<and>
          (\<forall>s. J s \<longrightarrow> array_snapshot_kept 0 [ent 1] s \<and>
                       masks_kept [ent 1] 1 (snd query_alone) s)"
      by (intro conjI disjI2 q xs kept) (simp_all add: query_alone_eq)
  qed
  then show "\<exists>out vis. for_each (create_with False ''Position'' 0) (fst query_alone)
                         (snd query_alone) = Some (out, vis) \<and> ent 2 \<notin> set vis"
    unfolding visits_snapshot_def by (auto simp: ent_def)
next
  define zs :: "(nat \<times> nat) list" where "zs = [(1, 0), (2, INVALID_COMP_INDEX)]"
  define J :: "(16 word, nat) EntityManager \<Rightarrow> bool" where
    "J = (\<lambda>s. freeEntityIndexes s = [] \<and> compTypeToCompIndex (compMgr s) ''Position'' = Some 0 \<and>
              isKeyed (componentPools (compMgr s) ! 0) \<and>
              compKeyToCompIndex (componentPools (compMgr s) ! 0) 12 = Some 0 \<and>
              bucket_snapshot_kept 0 0 zs [ent 1] s \<and>
              masks_kept [ent 1] (ec_compMask (fst query_keyed)) (snd query_keyed) s)"
  have z: "zs \<noteq> []" by (simp add: zs_def)
  have step: "J s'" if "J s" "create_with True ''Position'' 12 e s = Done s'" for e s s'
    using that z create_keeps_bucket [where s = s and s' = s' and e = e and T = "''Position''"
        and d = 0 and l = 0 and zs = zs and xs = "[ent 1]"
        and compMask = "ec_compMask (fst query_keyed)" and em = "snd query_keyed" and key = 12]
    unfolding J_def by simp
  have start: "J (snd query_keyed)"
    using query_keyed_eq
    by (auto simp: J_def bucket_snapshot_kept_def masks_kept_def Size_def ent_def zs_def
        the_list_def)
  have q: "EntitiesWith_key ''Position'' [] 12 em_keyed = Inr (fst query_keyed, snd query_keyed)"
    using query_keyed_eq by simp
  have h: "compTypeToCompIndex (compMgr em_keyed) ''Position'' = Some 0"
    "isKeyed (componentPools (compMgr em_keyed) ! 0)"
    "compKeyToCompIndex (componentPools (compMgr em_keyed) ! 0) 12 = Some 0"
    "bucket_nodes_ok (componentPools (compMgr em_keyed) ! 0) 0"
    "zs = the_list (componentPools (compMgr em_keyed) ! 0) 0 @
            [(fresh (componentPools (compMgr em_keyed) ! 0), INVALID_COMP_INDEX)]"
    "[ent 1] = map (\<lambda>nd. eid (components (componentPools (compMgr em_keyed) ! 0) ! snd nd))
                 (the_list (componentPools (compMgr em_keyed) ! 0) 0)"
    by (simp_all add: em_keyed_eq bucket_nodes_ok_def the_list_def node_ids_def zs_def
        INVALID_COMP_INDEX_def)
  have kept: "\<forall>s. J s \<longrightarrow> bucket_snapshot_kept 0 0 zs [ent 1] s \<and>
                 masks_kept [ent 1] (ec_compMask (fst query_keyed)) (snd query_keyed) s"
    by (simp add: J_def)
  have "visits_snapshot
          (for_each (create_with True ''Position'' 12) (fst query_keyed) (snd query_keyed))
          (has_mask (snd query_keyed) (ec_compMask (fst query_keyed))) [ent 1]"
  proof (rule C3_entities_created_during_traversal [where J = J and body = "create_with True ''Position'' 12"
        and em = "snd query_keyed" and ec = "fst query_keyed" and ?em0.0 = em_keyed and d = 0
        and l = 0 and ys = "[ent 1]" and zs = zs and keyType = "''Position''"
        and compTypes = "[]" and key = 12, THEN conjunct2, rule_format])
    show "\<And>e s s'. J s \<Longrightarrow> create_with True ''Position'' 12 e s = Done s' \<Longrightarrow> J s'"
      by (rule step)
    show "J (snd query_keyed)" by (rule start)
    show "EntitiesWith_key ''Position'' [] 12 em_keyed = Inr (fst query_keyed, snd query_keyed) \<and>
          compTypeToCompIndex (compMgr em_keyed) ''Position'' = Some 0 \<and>
          isKeyed (componentPools (compMgr em_keyed) ! 0) \<and>
          compKeyToCompIndex (componentPools (compMgr em_keyed) ! 0) 12 = Some 0 \<and>
          bucket_nodes_ok (componentPools (compMgr em_keyed) ! 0) 0 \<and>
          zs = the_list (componentPools (compMgr em_keyed) ! 0) 0 @
                 [(fresh (componentPools (compMgr em_keyed) ! 0), INVALID_COMP_INDEX)] \<and>
          [ent 1] = map (\<lambda>nd. eid (components (componentPools (compMgr em_keyed) ! 0) ! snd nd))
                 (the_list (componentPools (compMgr em_keyed) ! 0) 0) \<and>
          (\<forall>s. J s \<longrightarrow> bucket_snapshot_kept 0 0 zs [ent 1] s \<and>
                 masks_kept [ent 1] (ec_compMask (fst query_keyed)) (snd query_keyed) s)"
      using q h kept by blast
  qed
  then show "\<exists>out vis. for_each (create_with True ''Position'' 12) (fst query_keyed)
                         (snd query_keyed) = Some (out, vis) \<and> ent 2 \<notin> set vis"
    unfolding visits_snapshot_def by (auto simp: ent_def)
qed

subsection \<open>Removing all the components of an entity\<close>








subsection \<open>C7: \<open>Destroy\<close>\<close>






end
